theory Spec2Isabelle
  imports Complex_Main "HOL-Library.Word" "HOL-Library.Monad_Syntax"
begin

section \<open>Floating-point arithmetic of the numeric core\<close>

text \<open>
  The matting code computes in numpy \<^verbatim>\<open>float32\<close> arrays, with two Python
  \<^verbatim>\<open>float\<close> (binary64) scalars: \<^verbatim>\<open>bg_dist\<close> and the literal \<^verbatim>\<open>0.01\<close>.
  A finite floating-point number is modelled by the real number it denotes. Every
  operation rounds the exact result to the nearest number of the format, ties to the
  even significand; \<open>None\<close> stands for a result that is not a finite number
  (overflow to infinity, division by zero, square root of a negative number).
\<close>

definition rne :: "real \<Rightarrow> int" where
  "rne x = (let f = \<lfloor>x\<rfloor>; r = x - of_int f in
            if r < 1/2 then f else if 1/2 < r then f + 1 else if even f then f else f + 1)"

text \<open>
  The exponent of the unit in the last place of \<open>x\<close> in a format with \<open>p\<close> significand
  bits and least normal exponent \<open>emin\<close> (subnormal numbers share the spacing of the
  smallest normal binade).
\<close>

definition ulp_exp :: "nat \<Rightarrow> int \<Rightarrow> real \<Rightarrow> int" where
  "ulp_exp p emin x = max \<lfloor>log 2 \<bar>x\<bar>\<rfloor> emin - (int p - 1)"

definition fround :: "nat \<Rightarrow> int \<Rightarrow> real \<Rightarrow> real" where
  "fround p emin x = of_int (rne (x / 2 powi ulp_exp p emin x)) * 2 powi ulp_exp p emin x"

text \<open>Rounding to binary32 and to binary64, without the range check.\<close>

abbreviation r32 :: "real \<Rightarrow> real" where
  "r32 \<equiv> fround 24 (- 126)"

abbreviation r64 :: "real \<Rightarrow> real" where
  "r64 \<equiv> fround 53 (- 1022)"

definition f32 :: "real \<Rightarrow> real option" where
  "f32 x = (let y = fround 24 (- 126) x in if \<bar>y\<bar> < 2 ^ 128 then Some y else None)"

definition f64 :: "real \<Rightarrow> real option" where
  "f64 x = (let y = fround 53 (- 1022) x in if \<bar>y\<bar> < 2 ^ 1024 then Some y else None)"

definition f32_add :: "real \<Rightarrow> real \<Rightarrow> real option" where
  "f32_add x y = f32 (x + y)"

definition f32_sub :: "real \<Rightarrow> real \<Rightarrow> real option" where
  "f32_sub x y = f32 (x - y)"

definition f32_mul :: "real \<Rightarrow> real \<Rightarrow> real option" where
  "f32_mul x y = f32 (x * y)"

definition f32_div :: "real \<Rightarrow> real \<Rightarrow> real option" where
  "f32_div x y = (if y = 0 then None else f32 (x / y))"

definition f32_sqrt :: "real \<Rightarrow> real option" where
  "f32_sqrt x = (if x < 0 then None else f32 (sqrt x))"

definition clip :: "real \<Rightarrow> real \<Rightarrow> real \<Rightarrow> real" where
  "clip x lo hi = min (max x lo) hi"

section \<open>Raster images\<close>

type_synonym byte = "8 word"
type_synonym rgb = "byte \<times> byte \<times> byte"
type_synonym rgba = "byte \<times> byte \<times> byte \<times> byte"

text \<open>A raster of \<open>width * height\<close> pixels, stored row by row.\<close>

record 'p raster =
  width :: nat
  height :: nat
  pixels :: "'p list"

definition wf_raster :: "'p raster \<Rightarrow> bool" where
  "wf_raster im = (length (pixels im) = width im * height im)"

text \<open>The two image modes of the data model: three or four 8-bit channels.\<close>

datatype image = RGB "rgb raster" | RGBA "rgba raster"

fun wf_image :: "image \<Rightarrow> bool" where
  "wf_image (RGB im) = wf_raster im"
| "wf_image (RGBA im) = wf_raster im"

definition drop_alpha :: "rgba \<Rightarrow> rgb" where
  "drop_alpha px = (case px of (r, g, b, a) \<Rightarrow> (r, g, b))"

text \<open>\<^verbatim>\<open>image.convert('RGB')\<close>: a fourth channel is dropped.\<close>

fun convert_RGB :: "image \<Rightarrow> rgb raster" where
  "convert_RGB (RGB im) = im"
| "convert_RGB (RGBA im) =
     \<lparr>width = width im, height = height im, pixels = map drop_alpha (pixels im)\<rparr>"

text \<open>The pixel in row \<open>y\<close>, column \<open>x\<close>.\<close>

definition pixel_at :: "'p raster \<Rightarrow> nat \<Rightarrow> nat \<Rightarrow> 'p" where
  "pixel_at im y x = pixels im ! (y * width im + x)"

datatype error = ValueError | IndexError | RuntimeError | ZeroDivisionError | OverflowError
  | NonFinite

text \<open>\<^verbatim>\<open>rgb.getpixel((x, y))\<close> raises \<^verbatim>\<open>IndexError\<close> outside the image.\<close>

definition getpixel :: "'p raster \<Rightarrow> int \<times> int \<Rightarrow> error + 'p" where
  "getpixel im xy = (case xy of (x, y) \<Rightarrow>
     if 0 \<le> x \<and> x < int (width im) \<and> 0 \<le> y \<and> y < int (height im)
     then Inr (pixel_at im (nat y) (nat x)) else Inl IndexError)"

section \<open>The background predicate (transparency.py, background_is_black)\<close>

text \<open>Python's \<^verbatim>\<open>a / b\<close> on integers: the correctly rounded binary64 quotient.\<close>

definition py_truediv :: "int \<Rightarrow> int \<Rightarrow> error + real" where
  "py_truediv a b =
     (if b = 0 then Inl ZeroDivisionError
      else case f64 (of_int a / of_int b) of None \<Rightarrow> Inl OverflowError | Some q \<Rightarrow> Inr q)"

text \<open>
  The loop over the corners: the first corner whose mean exceeds the threshold returns
  \<open>False\<close>; an exception of \<open>getpixel\<close> propagates.
\<close>

fun corners_loop :: "rgb raster \<Rightarrow> int \<Rightarrow> (int \<times> int) list \<Rightarrow> error + bool" where
  "corners_loop rgb threshold [] = Inr True"
| "corners_loop rgb threshold (xy # corners) =
     (case getpixel rgb xy of
        Inl e \<Rightarrow> Inl e
      | Inr (r, g, b) \<Rightarrow>
          (case py_truediv (int (unat r) + int (unat g) + int (unat b)) 3 of
             Inl e \<Rightarrow> Inl e
           | Inr mean \<Rightarrow>
               if mean > of_int threshold then Inr False
               else corners_loop rgb threshold corners))"

definition corners :: "rgb raster \<Rightarrow> (int \<times> int) list" where
  "corners rgb = (let w = int (width rgb); h = int (height rgb) in
     [(0, 0), (w - 1, 0), (0, h - 1), (w - 1, h - 1)])"

definition background_is_black :: "image \<Rightarrow> int \<Rightarrow> error + bool" where
  "background_is_black img threshold =
     (let rgb = convert_RGB img in corners_loop rgb threshold (corners rgb))"

definition default_threshold :: int where
  "default_threshold = 20"

text \<open>The mean of the three channel values of a pixel, as a real number.\<close>

definition channel_mean :: "rgb \<Rightarrow> real" where
  "channel_mean px = (case px of (r, g, b) \<Rightarrow> (real (unat r) + real (unat g) + real (unat b)) / 3)"

section \<open>Difference matting (transparency.py, extract_alpha_difference_matting)\<close>

text \<open>\<^verbatim>\<open>np.array(..., dtype=np.float32)\<close>: an 8-bit channel converts exactly.\<close>

definition chan :: "byte \<Rightarrow> real" where
  "chan c = real (unat c)"

text \<open>\<^verbatim>\<open>bg_dist = math.sqrt(3 * 255 * 255)\<close>, a binary64 number.\<close>

definition bg_dist :: "real option" where
  "bg_dist = f64 (sqrt (3 * 255 * 255))"

text \<open>
  The squared Euclidean distance of two colours, an integer, and the distance itself.
\<close>

definition dist2 :: "rgb \<Rightarrow> rgb \<Rightarrow> int" where
  "dist2 w b = (case (w, b) of ((wr, wg, wb), (br, bg, bb)) \<Rightarrow>
     (uint wr - uint br)\<^sup>2 + (uint wg - uint bg)\<^sup>2 + (uint wb - uint bb)\<^sup>2)"

definition euclid :: "rgb \<Rightarrow> rgb \<Rightarrow> real" where
  "euclid w b = sqrt (of_int (dist2 w b))"

text \<open>
  \<^verbatim>\<open>pixel_dist = np.sqrt(np.sum(diff ** 2, axis=2))\<close> at one pixel, with
  \<^verbatim>\<open>diff = white_arr - black_arr\<close>: three differences, three squares, two additions
  and a square root, each rounded to binary32.
\<close>

definition pixel_dist :: "rgb \<Rightarrow> rgb \<Rightarrow> real option" where
  "pixel_dist w b = (case (w, b) of ((wr, wg, wb), (br, bg, bb)) \<Rightarrow>
     do {
       dr \<leftarrow> f32_sub (chan wr) (chan br);
       dg \<leftarrow> f32_sub (chan wg) (chan bg);
       db \<leftarrow> f32_sub (chan wb) (chan bb);
       sr \<leftarrow> f32_mul dr dr;
       sg \<leftarrow> f32_mul dg dg;
       sb \<leftarrow> f32_mul db db;
       s \<leftarrow> f32_add sr sg;
       s \<leftarrow> f32_add s sb;
       f32_sqrt s
     })"

text \<open>
  \<^verbatim>\<open>alpha = np.clip(1.0 - (pixel_dist / bg_dist), 0, 1)\<close>: the binary64 scalar
  \<^verbatim>\<open>bg_dist\<close> is converted to binary32 for the division with a \<^verbatim>\<open>float32\<close> array.
\<close>

definition alpha_of_dist :: "real \<Rightarrow> real option" where
  "alpha_of_dist pd =
     do {
       bg \<leftarrow> bg_dist;
       bg32 \<leftarrow> f32 bg;
       q \<leftarrow> f32_div pd bg32;
       a \<leftarrow> f32_sub 1 q;
       Some (clip a 0 1)
     }"

text \<open>
  The value that these roundings give for a pixel at exact distance \<open>d\<close>; the divisor
  is the binary32 value of \<^verbatim>\<open>bg_dist\<close> (lemmas \<open>f32_bg_dist\<close> and \<open>pixel_alpha_value\<close>).
\<close>

definition alpha_rounded :: "real \<Rightarrow> real" where
  "alpha_rounded d = r32 (1 - r32 (r32 d / (14472739 / 32768)))"

definition pixel_alpha :: "rgb \<Rightarrow> rgb \<Rightarrow> real option" where
  "pixel_alpha w b = do { pd \<leftarrow> pixel_dist w b; alpha_of_dist pd }"

text \<open>
  The alpha estimate as the specification words it, in exact real arithmetic:
  \<open>clamp(1 - d/D, 0, 1)\<close> with the reference distance \<open>D = sqrt (3 * 255 ^ 2)\<close>.
\<close>

definition reference_distance :: real where
  "reference_distance = sqrt (3 * 255\<^sup>2)"

definition alpha_spec :: "rgb \<Rightarrow> rgb \<Rightarrow> real" where
  "alpha_spec w b = clip (1 - euclid w b / reference_distance) 0 1"

text \<open>
  \<^verbatim>\<open>alpha_safe = np.where(alpha_expanded > 0.01, alpha_expanded, 1.0)\<close>: the literal
  \<^verbatim>\<open>0.01\<close> is a binary64 number, converted to binary32 for the comparison.
\<close>

definition alpha_threshold :: "real option" where
  "alpha_threshold = do { t \<leftarrow> f64 (1 / 100); f32 t }"

definition alpha_safe :: "real \<Rightarrow> real option" where
  "alpha_safe alpha = do { t \<leftarrow> alpha_threshold; Some (if alpha > t then alpha else 1) }"

text \<open>
  \<^verbatim>\<open>.astype(np.uint8)\<close> truncates towards zero. It is applied to numbers between 0
  and 255 only (lemmas \<open>recovered_in_range\<close> and \<open>alpha_scaled_in_range\<close>), where the
  conversion is defined.
\<close>

definition astype_uint8 :: "real \<Rightarrow> byte" where
  "astype_uint8 x = word_of_int (if 0 \<le> x then \<lfloor>x\<rfloor> else \<lceil>x\<rceil>)"

text \<open>
  \<^verbatim>\<open>np.clip(black_arr / alpha_safe, 0, 255).astype(np.uint8)\<close> at one channel.
\<close>

definition recover :: "byte \<Rightarrow> real \<Rightarrow> byte option" where
  "recover c asafe = do { v \<leftarrow> f32_div (chan c) asafe; Some (astype_uint8 (clip v 0 255)) }"

text \<open>\<^verbatim>\<open>alpha_uint8 = (alpha * 255).astype(np.uint8)\<close>.\<close>

definition alpha_uint8 :: "real \<Rightarrow> byte option" where
  "alpha_uint8 alpha = do { v \<leftarrow> f32_mul alpha 255; Some (astype_uint8 v) }"

text \<open>One pixel of the result, from the white and the black observation.\<close>

definition matte_pixel :: "rgb \<Rightarrow> rgb \<Rightarrow> rgba option" where
  "matte_pixel w b = (case b of (br, bg, bb) \<Rightarrow>
     do {
       alpha \<leftarrow> pixel_alpha w b;
       asafe \<leftarrow> alpha_safe alpha;
       r \<leftarrow> recover br asafe;
       g \<leftarrow> recover bg asafe;
       b \<leftarrow> recover bb asafe;
       a \<leftarrow> alpha_uint8 alpha;
       Some (r, g, b, a)
     })"

text \<open>
  numpy broadcasting of one axis: equal lengths, or one of them 1. The arrays have
  shapes \<open>(height, width, 3)\<close>; \<^verbatim>\<open>white_arr - black_arr\<close> raises \<^verbatim>\<open>ValueError\<close>
  when an axis cannot be broadcast.
\<close>

definition broadcast_dim :: "nat \<Rightarrow> nat \<Rightarrow> nat option" where
  "broadcast_dim m n =
     (if m = n then Some m else if m = 1 then Some n else if n = 1 then Some m else None)"

definition bidx :: "nat \<Rightarrow> nat \<Rightarrow> nat" where
  "bidx n i = (if n = 1 then 0 else i)"

definition bpixel :: "'p raster \<Rightarrow> nat \<Rightarrow> nat \<Rightarrow> 'p" where
  "bpixel im y x = pixel_at im (bidx (height im) y) (bidx (width im) x)"

text \<open>
  The whole function. A pixel whose arithmetic leaves the finite numbers ends the model
  with \<open>NonFinite\<close> (numpy would go on with an infinity or a NaN, whose conversion to
  \<^verbatim>\<open>uint8\<close> is not defined); \<open>matte_pixel_finite\<close> shows that this never happens.
  The conversions between images and arrays (\<^verbatim>\<open>np.array\<close>, \<^verbatim>\<open>Image.fromarray\<close>)
  keep width, height and channel values.
\<close>

definition extract_alpha_difference_matting :: "image \<Rightarrow> image \<Rightarrow> error + rgba raster" where
  "extract_alpha_difference_matting img_on_white img_on_black =
     (let white_arr = convert_RGB img_on_white; black_arr = convert_RGB img_on_black in
      case (broadcast_dim (height white_arr) (height black_arr),
            broadcast_dim (width white_arr) (width black_arr)) of
        (Some h, Some w) \<Rightarrow>
          (case those (map (\<lambda>i. matte_pixel (bpixel white_arr (i div w) (i mod w))
                                             (bpixel black_arr (i div w) (i mod w)))
                           [0..<h * w]) of
             None \<Rightarrow> Inl NonFinite
           | Some rgba \<Rightarrow> Inr \<lparr>width = w, height = h, pixels = rgba\<rparr>)
      | _ \<Rightarrow> Inl ValueError)"

section \<open>The acquisition controller (transparency.py, generate_transparent_image)\<close>

text \<open>
  A response of the model client is its list of parts; a part carries a decoded image
  (\<^verbatim>\<open>inline_data\<close>) or none.
\<close>

type_synonym response = "image option list"

fun first_payload :: "response \<Rightarrow> image option" where
  "first_payload [] = None"
| "first_payload (None # parts) = first_payload parts"
| "first_payload (Some img # parts) = Some img"

text \<open>
  The retry loop of step 2. \<open>edit k\<close> is the response to the edit request number
  \<open>k + 1\<close>; \<open>n\<close> counts the attempts left, \<open>calls\<close> the requests issued so far, and
  \<open>img_on_black\<close> is the variable of that name, which keeps its value when a response
  has no image. The result pairs the outcome with the number of requests issued.
\<close>

fun black_loop ::
  "(nat \<Rightarrow> response) \<Rightarrow> nat \<Rightarrow> nat \<Rightarrow> image option \<Rightarrow> (error + image option) \<times> nat" where
  "black_loop edit 0 calls img_on_black = (Inr img_on_black, calls)"
| "black_loop edit (Suc n) calls img_on_black =
     (let img = (case first_payload (edit calls) of Some i \<Rightarrow> Some i | None \<Rightarrow> img_on_black)
      in case img of
           None \<Rightarrow> black_loop edit n (Suc calls) None
         | Some i \<Rightarrow>
             (case background_is_black i default_threshold of
                Inl e \<Rightarrow> (Inl e, Suc calls)
              | Inr True \<Rightarrow> (Inr img, Suc calls)
              | Inr False \<Rightarrow> black_loop edit n (Suc calls) img))"

text \<open>
  The check after the loop: \<^verbatim>\<open>if img_on_black is None or not
  background_is_black(img_on_black): raise RuntimeError(...)\<close>.
\<close>

definition final_check :: "(error + image option) \<times> nat \<Rightarrow> (error + image) \<times> nat" where
  "final_check r = (case r of
        (Inl e, calls) \<Rightarrow> (Inl e, calls)
      | (Inr None, calls) \<Rightarrow> (Inl RuntimeError, calls)
      | (Inr (Some i), calls) \<Rightarrow>
          (case background_is_black i default_threshold of
             Inl e \<Rightarrow> (Inl e, calls)
           | Inr True \<Rightarrow> (Inr i, calls)
           | Inr False \<Rightarrow> (Inl RuntimeError, calls)))"

definition black_stage :: "(nat \<Rightarrow> response) \<Rightarrow> int \<Rightarrow> (error + image) \<times> nat" where
  "black_stage edit max_black_attempts =
     final_check (black_loop edit (nat max_black_attempts) 0 None)"

definition default_max_black_attempts :: int where
  "default_max_black_attempts = 5"

text \<open>
  The model client: the response to the white-background request, and for a given
  white image the responses to the successive edit requests.
\<close>

record client =
  white_request :: response
  edit_request :: "image \<Rightarrow> nat \<Rightarrow> response"

definition generate_transparent_image :: "client \<Rightarrow> int \<Rightarrow> error + rgba raster" where
  "generate_transparent_image c max_black_attempts =
     (case first_payload (white_request c) of
        None \<Rightarrow> Inl RuntimeError
      | Some img_on_white \<Rightarrow>
          (case fst (black_stage (edit_request c img_on_white) max_black_attempts) of
             Inl e \<Rightarrow> Inl e
           | Inr img_on_black \<Rightarrow> extract_alpha_difference_matting img_on_white img_on_black))"

text \<open>
  The same loop in generate.py (\<^verbatim>\<open>main\<close>, \<^verbatim>\<open>for attempt in range(1, 6)\<close>); a failure
  ends the process with exit status 1.
\<close>

definition main_black_stage :: "(nat \<Rightarrow> response) \<Rightarrow> (error + image) \<times> nat" where
  "main_black_stage edit = black_stage edit 5"

text \<open>
  The retry protocol as the specification words it: every attempt is judged on its own
  response alone, and nothing but the counters passes from one attempt to the next.
\<close>

fun independent_loop ::
  "(nat \<Rightarrow> response) \<Rightarrow> nat \<Rightarrow> nat \<Rightarrow> (error + image) \<times> nat" where
  "independent_loop edit 0 calls = (Inl RuntimeError, calls)"
| "independent_loop edit (Suc n) calls =
     (case first_payload (edit calls) of
        None \<Rightarrow> independent_loop edit n (Suc calls)
      | Some i \<Rightarrow>
          (case background_is_black i default_threshold of
             Inl e \<Rightarrow> (Inl e, Suc calls)
           | Inr True \<Rightarrow> (Inr i, Suc calls)
           | Inr False \<Rightarrow> independent_loop edit n (Suc calls)))"

text \<open>An attempt succeeds: it returns a payload that passes the predicate.\<close>

definition attempt_ok :: "response \<Rightarrow> bool" where
  "attempt_ok r = (case first_payload r of
       None \<Rightarrow> False
     | Some i \<Rightarrow> background_is_black i default_threshold = Inr True)"

text \<open>An attempt on whose payload the predicate raises.\<close>

definition attempt_raises :: "response \<Rightarrow> bool" where
  "attempt_raises r = (case first_payload r of
       None \<Rightarrow> False
     | Some i \<Rightarrow> isl (background_is_black i default_threshold))"

section \<open>Properties of rounding\<close>

lemma rne_of_int [simp]: "rne (of_int k) = k"
  by (simp add: rne_def)

lemma rne_zero [simp]: "rne 0 = 0"
  using rne_of_int [of 0] by simp

lemma rne_bounds: "\<bar>of_int (rne x) - x\<bar> \<le> 1/2"
  unfolding rne_def Let_def by (auto; linarith)

lemma rne_mono: "x \<le> y \<Longrightarrow> rne x \<le> rne y"
proof (rule ccontr)
  assume xy: "x \<le> y" and "\<not> rne x \<le> rne y"
  then have gt: "real_of_int (rne y) + 1 \<le> real_of_int (rne x)"
    by linarith
  from rne_bounds [of x] rne_bounds [of y] gt xy have "x = y"
    by linarith
  with \<open>\<not> rne x \<le> rne y\<close> show False by simp
qed

lemma rne_char:
  assumes "of_int f \<le> x" "x < of_int f + 1"
  shows "rne x = (if x - of_int f < 1/2 then f else if 1/2 < x - of_int f then f + 1
                  else if even f then f else f + 1)"
proof -
  have "\<lfloor>x\<rfloor> = f" by (rule floor_unique) (use assms in simp_all)
  then show ?thesis by (simp add: rne_def Let_def)
qed

lemma rne_minus: "rne (- x) = - rne x"
proof (cases "x \<in> \<int>")
  case True
  then obtain k where k: "x = of_int k" by (auto elim: Ints_cases)
  have "rne (of_int (- k)) = - k" by (rule rne_of_int)
  then show ?thesis using k by simp
next
  case False
  define f where "f = \<lfloor>x\<rfloor>"
  have "of_int f \<noteq> x" using False by (metis Ints_of_int)
  then have lo: "of_int f < x" unfolding f_def using of_int_floor_le [of x] by linarith
  have hi: "x < of_int f + 1" unfolding f_def by linarith
  have a: "rne x = (if x - of_int f < 1/2 then f else if 1/2 < x - of_int f then f + 1
                  else if even f then f else f + 1)"
    by (rule rne_char) (use lo hi in simp_all)
  have b: "rne (- x) = (if - x - of_int (- f - 1) < 1/2 then - f - 1
                  else if 1/2 < - x - of_int (- f - 1) then - f - 1 + 1
                  else if even (- f - 1) then - f - 1 else - f - 1 + 1)"
    by (rule rne_char) (use lo hi in simp_all)
  have ev: "even (- f - 1) = odd f" by simp
  consider "x - of_int f < 1/2" | "1/2 < x - of_int f" | "x - of_int f = 1/2" by linarith
  then show ?thesis
  proof cases
    case 1
    then have "\<not> - x - of_int (- f - 1) < 1/2" "1/2 < - x - of_int (- f - 1)" by simp_all
    then have "rne (- x) = - f" using b by simp
    moreover have "rne x = f" using a 1 by simp
    ultimately show ?thesis by simp
  next
    case 2
    then have "- x - of_int (- f - 1) < 1/2" by simp
    then have "rne (- x) = - f - 1" using b by simp
    moreover have "rne x = f + 1" using a 2 by simp
    ultimately show ?thesis by simp
  next
    case 3
    then have c: "- x - of_int (- f - 1) = 1/2" by simp
    have "rne (- x) = (if odd f then - f - 1 else - f)"
      using b unfolding c ev by simp
    moreover have "rne x = (if even f then f else f + 1)" using a unfolding 3 by simp
    ultimately show ?thesis by simp
  qed
qed

lemma rne_eqI: "\<bar>x - of_int m\<bar> < 1/2 \<Longrightarrow> rne x = m"
proof -
  assume a: "\<bar>x - of_int m\<bar> < 1/2"
  have "\<bar>real_of_int (rne x) - real_of_int m\<bar> < 1"
    using rne_bounds [of x] a by linarith
  then have "\<bar>rne x - m\<bar> < 1" by linarith
  then show ?thesis by linarith
qed

lemma pow2_powr: "2 powr real_of_int k = (2::real) powi k"
  by (rule powr_real_of_int') simp_all

lemma floor_log2_eq: "0 < x \<Longrightarrow> (\<lfloor>log 2 x\<rfloor> = k) = (2 powi k \<le> x \<and> x < 2 powi (k + 1))"
  using floor_log_eq_powr_iff [of x 2 k] by (simp only: pow2_powr)

lemma p2_pos [simp]: "0 < (2::real) powi k"
  by (simp add: zero_less_power_int)

lemma p2_le_iff [simp]: "((2::real) powi a \<le> 2 powi b) = (a \<le> b)"
  using powr_le_cancel_iff [of 2 "of_int a" "of_int b"] by (simp only: pow2_powr) simp

lemma p2_less_iff [simp]: "((2::real) powi a < 2 powi b) = (a < b)"
  using powr_less_cancel_iff [of 2 "of_int a" "of_int b"] by (simp only: pow2_powr) simp

lemma p2_add: "(2::real) powi (a + b) = 2 powi a * 2 powi b"
  by (rule power_int_add) simp

lemma p2_diff: "(2::real) powi (a - b) = 2 powi a / 2 powi b"
  by (rule power_int_diff) simp

lemma p2_nat: "(2::real) powi (int n) = of_int (2 ^ n)"
  by (simp add: power_int_of_nat)

lemma exponent_bounds:
  "x \<noteq> 0 \<Longrightarrow> 2 powi \<lfloor>log 2 \<bar>x\<bar>\<rfloor> \<le> \<bar>x\<bar> \<and> \<bar>x\<bar> < 2 powi (\<lfloor>log 2 \<bar>x\<bar>\<rfloor> + 1)"
  using floor_log2_eq [of "\<bar>x\<bar>" "\<lfloor>log 2 \<bar>x\<bar>\<rfloor>"] by simp

lemma ulp_exp_lower: "emin - (int p - 1) \<le> ulp_exp p emin x"
  by (simp add: ulp_exp_def)

lemma ulp_exp_minus [simp]: "ulp_exp p emin (- x) = ulp_exp p emin x"
  by (simp add: ulp_exp_def)

lemma ulp_exp_binade:
  assumes "2 powi k \<le> \<bar>x\<bar>" and "\<bar>x\<bar> < 2 powi (k + 1)"
  shows "ulp_exp p emin x = max k emin - (int p - 1)"
proof -
  have "0 < \<bar>x\<bar>" using assms(1) p2_pos [of k] by linarith
  then have "\<lfloor>log 2 \<bar>x\<bar>\<rfloor> = k" using assms by (simp add: floor_log2_eq)
  then show ?thesis by (simp add: ulp_exp_def)
qed

lemma fround_zero [simp]: "fround p emin 0 = 0"
  by (simp add: fround_def)

lemma fround_minus: "fround p emin (- x) = - fround p emin x"
  by (simp add: fround_def rne_minus)

lemma fround_error: "\<bar>fround p emin x - x\<bar> \<le> 2 powi ulp_exp p emin x / 2"
proof -
  define u where "u = ulp_exp p emin x"
  define z where "z = x / 2 powi u"
  have x: "x = z * 2 powi u" by (simp add: z_def)
  have "\<bar>of_int (rne z) - z\<bar> * 2 powi u \<le> 1/2 * 2 powi u"
    by (rule mult_right_mono [OF rne_bounds]) simp
  moreover have "\<bar>of_int (rne z) - z\<bar> * 2 powi u = \<bar>of_int (rne z) * 2 powi u - z * 2 powi u\<bar>"
    by (simp add: abs_mult left_diff_distrib [symmetric])
  ultimately have "\<bar>of_int (rne z) * 2 powi u - x\<bar> \<le> 2 powi u / 2"
    using x by simp
  then show ?thesis by (simp add: fround_def u_def z_def)
qed

lemma fround_eval:
  assumes "2 powi k \<le> \<bar>x\<bar>" and "\<bar>x\<bar> < 2 powi (k + 1)" and "emin \<le> k"
  shows "fround p emin x = of_int (rne (x / 2 powi (k - (int p - 1)))) * 2 powi (k - (int p - 1))"
  using ulp_exp_binade [OF assms(1,2), of p emin] assms(3) by (simp add: fround_def max_def)

lemma fround_exact:
  assumes m: "\<bar>m\<bar> < 2 ^ p" and e: "emin - (int p - 1) \<le> e"
  shows "fround p emin (of_int m * 2 powi e) = of_int m * 2 powi e"
proof (cases "m = 0")
  case True
  then show ?thesis by simp
next
  case False
  define y :: real where "y = of_int m * 2 powi e"
  define u where "u = ulp_exp p emin y"
  define k where "k = \<lfloor>log 2 \<bar>y\<bar>\<rfloor>"
  have y0: "y \<noteq> 0" using False by (simp add: y_def)
  have absy: "\<bar>y\<bar> = of_int \<bar>m\<bar> * 2 powi e" by (simp add: y_def abs_mult)
  have "real_of_int \<bar>m\<bar> < of_int (2 ^ p)" using m by (simp only: of_int_less_iff)
  then have "real_of_int \<bar>m\<bar> * 2 powi e < 2 powi (int p) * 2 powi e"
    by (simp add: p2_nat)
  then have "\<bar>y\<bar> < 2 powi (int p + e)" by (simp add: absy p2_add)
  moreover have "2 powi k \<le> \<bar>y\<bar>" using exponent_bounds [OF y0] by (simp add: k_def)
  ultimately have "(2::real) powi k < 2 powi (int p + e)" by linarith
  then have "k < int p + e" by simp
  then have ue: "u \<le> e" using e by (simp add: u_def ulp_exp_def k_def)
  define d where "d = nat (e - u)"
  have ed: "e = u + int d" using ue by (simp add: d_def)
  have "y = of_int (m * 2 ^ d) * 2 powi u"
    by (simp add: y_def ed p2_add p2_nat)
  then have z: "y / 2 powi u = of_int (m * 2 ^ d)" by simp
  have "fround p emin y = of_int (rne (of_int (m * 2 ^ d))) * 2 powi u"
    unfolding fround_def u_def [symmetric] z ..
  also have "\<dots> = of_int (m * 2 ^ d) * 2 powi u" by (simp only: rne_of_int)
  also have "\<dots> = y" using \<open>y = of_int (m * 2 ^ d) * 2 powi u\<close> by simp
  finally show ?thesis by (simp add: y_def)
qed

lemma fround_of_int:
  assumes "\<bar>m\<bar> < 2 ^ p" and "emin \<le> int p - 1"
  shows "fround p emin (of_int m) = of_int m"
  using fround_exact [OF assms(1), of emin 0] assms(2) by simp

lemma fround_nonneg: "0 \<le> x \<Longrightarrow> 0 \<le> fround p emin x"
proof -
  assume "0 \<le> x"
  then have "0 \<le> x / 2 powi ulp_exp p emin x" by simp
  then have "rne 0 \<le> rne (x / 2 powi ulp_exp p emin x)" by (rule rne_mono)
  then show ?thesis by (simp add: fround_def)
qed

lemma fround_ge_p2:
  assumes jx: "2 powi j \<le> x" and ej: "emin \<le> j" and p: "0 < p"
  shows "2 powi j \<le> fround p emin x"
proof -
  have xpos: "0 < x" using jx p2_pos [of j] by linarith
  then have x0: "x \<noteq> 0" by simp
  define k where "k = \<lfloor>log 2 \<bar>x\<bar>\<rfloor>"
  have kb: "2 powi k \<le> x" "x < 2 powi (k + 1)"
    using exponent_bounds [OF x0] xpos by (simp_all add: k_def)
  have "(2::real) powi j < 2 powi (k + 1)" using jx kb(2) by linarith
  then have jk: "j \<le> k" by simp
  define u where "u = k - (int p - 1)"
  have fe: "fround p emin x = of_int (rne (x / 2 powi u)) * 2 powi u"
    unfolding u_def by (rule fround_eval) (use kb xpos jk ej in simp_all)
  have "k - u = int (p - 1)" using p by (simp add: u_def)
  then have "(2::real) powi k / 2 powi u = of_int (2 ^ (p - 1))"
    by (simp add: p2_diff [symmetric] p2_nat)
  moreover have "(2::real) powi k / 2 powi u \<le> x / 2 powi u"
    by (rule divide_right_mono) (use kb in simp_all)
  ultimately have "real_of_int (2 ^ (p - 1)) \<le> x / 2 powi u" by simp
  then have "rne (real_of_int (2 ^ (p - 1))) \<le> rne (x / 2 powi u)" by (rule rne_mono)
  then have "(2::int) ^ (p - 1) \<le> rne (x / 2 powi u)" by (simp only: rne_of_int)
  then have "real_of_int (2 ^ (p - 1)) \<le> real_of_int (rne (x / 2 powi u))"
    by (simp only: of_int_le_iff)
  then have "real_of_int (2 ^ (p - 1)) * 2 powi u \<le> fround p emin x"
    unfolding fe by (rule mult_right_mono) simp
  moreover have "real_of_int (2 ^ (p - 1)) * 2 powi u = 2 powi k"
    using \<open>(2::real) powi k / 2 powi u = of_int (2 ^ (p - 1))\<close> by (simp add: field_simps)
  ultimately have "2 powi k \<le> fround p emin x" by simp
  moreover have "(2::real) powi j \<le> 2 powi k" using jk by simp
  ultimately show ?thesis by linarith
qed

lemma fround_le_p2:
  assumes x0: "0 \<le> x" and xj: "x \<le> 2 powi j" and ej: "emin \<le> j" and p: "0 < p"
  shows "fround p emin x \<le> 2 powi j"
proof (cases "x = 0")
  case True
  then show ?thesis using p2_pos [of j] by (simp add: less_imp_le)
next
  case False
  then have xpos: "0 < x" using x0 by simp
  define k where "k = \<lfloor>log 2 \<bar>x\<bar>\<rfloor>"
  have kb: "2 powi k \<le> x" using exponent_bounds [OF False] xpos by (simp add: k_def)
  then have "(2::real) powi k \<le> 2 powi j" using xj by linarith
  then have kj: "k \<le> j" by simp
  define u where "u = ulp_exp p emin x"
  have uj: "u \<le> j" using kj ej p by (simp add: u_def ulp_exp_def k_def [symmetric])
  define d where "d = nat (j - u)"
  have jd: "j = u + int d" using uj by (simp add: d_def)
  have pj: "(2::real) powi j = of_int (2 ^ d) * 2 powi u"
    by (simp add: jd p2_add p2_nat)
  have "x / 2 powi u \<le> 2 powi j / 2 powi u"
    by (rule divide_right_mono) (use xj in simp_all)
  then have "x / 2 powi u \<le> real_of_int (2 ^ d)" by (simp add: pj)
  then have "rne (x / 2 powi u) \<le> rne (real_of_int (2 ^ d))" by (rule rne_mono)
  then have "rne (x / 2 powi u) \<le> 2 ^ d" by (simp only: rne_of_int)
  then have "real_of_int (rne (x / 2 powi u)) \<le> real_of_int (2 ^ d)"
    by (simp only: of_int_le_iff)
  then have "real_of_int (rne (x / 2 powi u)) * 2 powi u \<le> real_of_int (2 ^ d) * 2 powi u"
    by (rule mult_right_mono) simp
  then show ?thesis by (simp add: fround_def u_def [symmetric] pj)
qed

lemma fround_mono_pos:
  assumes xpos: "0 < x" and xy: "x \<le> y" and p: "0 < p"
  shows "fround p emin x \<le> fround p emin y"
proof -
  define kx where "kx = \<lfloor>log 2 \<bar>x\<bar>\<rfloor>"
  define ky where "ky = \<lfloor>log 2 \<bar>y\<bar>\<rfloor>"
  have ypos: "0 < y" using xpos xy by linarith
  have "log 2 x \<le> log 2 y" by (rule log_mono) (use xpos xy in simp_all)
  then have kxy: "kx \<le> ky" using xpos ypos by (simp add: kx_def ky_def floor_mono)
  have bx: "x < 2 powi (kx + 1)"
    using exponent_bounds [of x] xpos by (simp add: kx_def)
  have by': "2 powi ky \<le> y"
    using exponent_bounds [of y] ypos by (simp add: ky_def)
  show ?thesis
  proof (cases "max kx emin = max ky emin")
    case True
    then have u: "ulp_exp p emin x = ulp_exp p emin y"
      by (simp add: ulp_exp_def kx_def ky_def)
    have "x / 2 powi ulp_exp p emin y \<le> y / 2 powi ulp_exp p emin y"
      by (rule divide_right_mono) (use xy in simp_all)
    then have "rne (x / 2 powi ulp_exp p emin y) \<le> rne (y / 2 powi ulp_exp p emin y)"
      by (rule rne_mono)
    then have "real_of_int (rne (x / 2 powi ulp_exp p emin y))
        \<le> real_of_int (rne (y / 2 powi ulp_exp p emin y))"
      by (simp only: of_int_le_iff)
    then have "real_of_int (rne (x / 2 powi ulp_exp p emin y)) * 2 powi ulp_exp p emin y
        \<le> real_of_int (rne (y / 2 powi ulp_exp p emin y)) * 2 powi ulp_exp p emin y"
      by (rule mult_right_mono) simp
    then show ?thesis by (simp add: fround_def u)
  next
    case False
    then have lt: "kx < ky" and ek: "emin \<le> ky" using kxy by (auto simp: max_def split: if_splits)
    have "(2::real) powi (kx + 1) \<le> 2 powi ky" using lt by simp
    then have "x \<le> 2 powi ky" using bx by linarith
    then have "fround p emin x \<le> 2 powi ky"
      by (rule fround_le_p2 [OF less_imp_le [OF xpos] _ ek p])
    moreover have "2 powi ky \<le> fround p emin y"
      by (rule fround_ge_p2 [OF by' ek p])
    ultimately show ?thesis by linarith
  qed
qed

lemma fround_mono:
  assumes xy: "x \<le> y" and p: "0 < p"
  shows "fround p emin x \<le> fround p emin y"
proof -
  consider "0 < x" | "x \<le> 0" "0 \<le> y" | "y < 0" by linarith
  then show ?thesis
  proof cases
    case 1
    then show ?thesis using xy p by (rule fround_mono_pos)
  next
    case 2
    have "0 \<le> fround p emin (- x)" by (rule fround_nonneg) (use 2 in simp)
    then have "fround p emin x \<le> 0" by (simp add: fround_minus)
    moreover have "0 \<le> fround p emin y" by (rule fround_nonneg) (use 2 in simp)
    ultimately show ?thesis by linarith
  next
    case 3
    have "fround p emin (- y) \<le> fround p emin (- x)"
      by (rule fround_mono_pos) (use 3 xy p in simp_all)
    then show ?thesis by (simp add: fround_minus)
  qed
qed

lemma fround_idem:
  assumes p: "0 < p"
  shows "fround p emin (fround p emin x) = fround p emin x"
proof (cases "x = 0")
  case True
  then show ?thesis by simp
next
  case False
  define k where "k = \<lfloor>log 2 \<bar>x\<bar>\<rfloor>"
  define u where "u = ulp_exp p emin x"
  define m where "m = rne (x / 2 powi u)"
  have fx: "fround p emin x = of_int m * 2 powi u" by (simp add: fround_def u_def m_def)
  have ul: "emin - (int p - 1) \<le> u" unfolding u_def by (rule ulp_exp_lower)
  have ku: "k + 1 - u \<le> int p" by (simp add: u_def ulp_exp_def k_def)
  have "\<bar>x\<bar> < 2 powi (k + 1)" using exponent_bounds [OF False] by (simp add: k_def)
  then have "\<bar>x\<bar> / 2 powi u < 2 powi (k + 1) / 2 powi u"
    by (rule divide_strict_right_mono) simp
  also have "\<dots> = 2 powi (k + 1 - u)" by (simp only: p2_diff)
  also have "\<dots> \<le> 2 ^ p" using ku p2_le_iff [of "k + 1 - u" "int p"] by simp
  finally have zb: "\<bar>x / 2 powi u\<bar> < real_of_int (2 ^ p)" by simp
  have zb1: "x / 2 powi u \<le> real_of_int (2 ^ p)" using zb by linarith
  have "- real_of_int (2 ^ p) \<le> x / 2 powi u" using zb by linarith
  then have zb2: "real_of_int (- (2 ^ p)) \<le> x / 2 powi u" by (simp only: of_int_minus)
  have "rne (x / 2 powi u) \<le> rne (real_of_int (2 ^ p))"
    using zb1 by (rule rne_mono)
  moreover have "rne (real_of_int (- (2 ^ p))) \<le> rne (x / 2 powi u)"
    using zb2 by (rule rne_mono)
  ultimately have mb: "\<bar>m\<bar> \<le> 2 ^ p" unfolding m_def rne_of_int by linarith
  show ?thesis
  proof (cases "\<bar>m\<bar> < 2 ^ p")
    case True
    show ?thesis unfolding fx by (rule fround_exact [OF True ul])
  next
    case False
    then have "m = 2 ^ p \<or> m = - (2 ^ p)" using mb by linarith
    then obtain m' :: int where m': "\<bar>m'\<bar> = 2 ^ (p - 1)" "m = 2 * m'"
    proof
      assume "m = 2 ^ p"
      then have "m = 2 * 2 ^ (p - 1)" using p by (simp add: power_eq_if)
      then show ?thesis using that [of "2 ^ (p - 1)"] by simp
    next
      assume "m = - (2 ^ p)"
      then have "m = 2 * (- (2 ^ (p - 1)))" using p by (simp add: power_eq_if)
      then show ?thesis using that [of "- (2 ^ (p - 1))"] by simp
    qed
    have lt: "\<bar>m'\<bar> < 2 ^ p" using m'(1) p by (simp add: power_eq_if [of _ p])
    have "real_of_int m * 2 powi u = real_of_int m' * 2 powi (u + 1)"
      by (simp add: m'(2) p2_add)
    moreover have "fround p emin (real_of_int m' * 2 powi (u + 1)) = real_of_int m' * 2 powi (u + 1)"
      by (rule fround_exact [OF lt]) (use ul in simp)
    ultimately show ?thesis unfolding fx by simp
  qed
qed

lemma fround_abs_le_p2:
  assumes "\<bar>x\<bar> \<le> 2 powi j" and "emin \<le> j" and "0 < p"
  shows "\<bar>fround p emin x\<bar> \<le> 2 powi j"
proof (cases "0 \<le> x")
  case True
  then have "fround p emin x \<le> 2 powi j"
    using assms by (intro fround_le_p2) simp_all
  moreover have "0 \<le> fround p emin x" using True by (rule fround_nonneg)
  ultimately show ?thesis by simp
next
  case False
  then have "fround p emin (- x) \<le> 2 powi j"
    using assms by (intro fround_le_p2) simp_all
  moreover have "0 \<le> fround p emin (- x)" by (rule fround_nonneg) (use False in simp)
  ultimately show ?thesis by (simp add: fround_minus)
qed

lemma fround_error_le:
  assumes xj: "\<bar>x\<bar> \<le> 2 powi j" and ej: "emin \<le> j"
  shows "\<bar>fround p emin x - x\<bar> \<le> 2 powi (j - int p)"
proof (cases "x = 0")
  case True
  then show ?thesis using p2_pos [of "j - int p"] by (simp add: less_imp_le)
next
  case False
  define k where "k = \<lfloor>log 2 \<bar>x\<bar>\<rfloor>"
  have "2 powi k \<le> \<bar>x\<bar>" using exponent_bounds [OF False] by (simp add: k_def)
  then have "(2::real) powi k \<le> 2 powi j" using xj by linarith
  then have kj: "k \<le> j" by simp
  have u: "ulp_exp p emin x - 1 \<le> j - int p"
    using kj ej by (simp add: ulp_exp_def k_def [symmetric])
  have "\<bar>fround p emin x - x\<bar> \<le> 2 powi ulp_exp p emin x / 2" by (rule fround_error)
  also have "\<dots> = 2 powi (ulp_exp p emin x - 1)" by (simp add: p2_diff)
  also have "\<dots> \<le> 2 powi (j - int p)" using u by (simp only: p2_le_iff)
  finally show ?thesis .
qed

lemma f32_finite:
  assumes "\<bar>x\<bar> \<le> 2 powi j" and "- 126 \<le> j" and "j \<le> 127"
  shows "f32 x = Some (fround 24 (- 126) x)"
proof -
  have "\<bar>fround 24 (- 126) x\<bar> \<le> 2 powi j"
    using assms(1,2) by (intro fround_abs_le_p2) simp_all
  also have "(2::real) powi j < 2 powi 128" using assms(3) by (simp only: p2_less_iff)
  finally have "\<bar>fround 24 (- 126) x\<bar> < 2 ^ 128" by simp
  then show ?thesis by (simp add: f32_def)
qed

lemma f64_finite:
  assumes "\<bar>x\<bar> \<le> 2 powi j" and "- 1022 \<le> j" and "j \<le> 1023"
  shows "f64 x = Some (fround 53 (- 1022) x)"
proof -
  have "\<bar>fround 53 (- 1022) x\<bar> \<le> 2 powi j"
    using assms(1,2) by (intro fround_abs_le_p2) simp_all
  also have "(2::real) powi j < 2 powi 1024" using assms(3) by (simp only: p2_less_iff)
  finally have "\<bar>fround 53 (- 1022) x\<bar> < 2 ^ 1024" by simp
  then show ?thesis by (simp add: f64_def)
qed

lemma fround32_of_int: "\<bar>n\<bar> < 2 ^ 24 \<Longrightarrow> fround 24 (- 126) (of_int n) = of_int n"
  by (rule fround_of_int) simp_all

lemma fround64_of_int: "\<bar>n\<bar> < 2 ^ 53 \<Longrightarrow> fround 53 (- 1022) (of_int n) = of_int n"
  by (rule fround_of_int) simp_all

lemma f32_of_int:
  assumes "\<bar>n\<bar> < 2 ^ 24"
  shows "f32 (of_int n) = Some (of_int n)"
proof -
  have "real_of_int \<bar>n\<bar> < of_int (2 ^ 24)" using assms by (simp only: of_int_less_iff)
  then have "\<bar>real_of_int n\<bar> \<le> 2 powi 24" by simp
  then have "f32 (of_int n) = Some (fround 24 (- 126) (of_int n))"
    by (rule f32_finite) simp_all
  then show ?thesis using fround32_of_int [OF assms] by simp
qed

lemma f64_of_int:
  assumes "\<bar>n\<bar> < 2 ^ 53"
  shows "f64 (of_int n) = Some (of_int n)"
proof -
  have "real_of_int \<bar>n\<bar> < of_int (2 ^ 53)" using assms by (simp only: of_int_less_iff)
  then have "\<bar>real_of_int n\<bar> \<le> 2 powi 53" by simp
  then have "f64 (of_int n) = Some (fround 53 (- 1022) (of_int n))"
    by (rule f64_finite) simp_all
  then show ?thesis using fround64_of_int [OF assms] by simp
qed

lemma f32_zero [simp]: "f32 0 = Some 0"
  by (simp add: f32_def)

lemma f64_zero [simp]: "f64 0 = Some 0"
  by (simp add: f64_def)

section \<open>The background predicate\<close>

lemma py_truediv_mean:
  assumes s0: "0 \<le> s" and s1: "s \<le> 765"
  shows "\<exists>m. py_truediv s 3 = Inr m \<and> (of_int t < m) = (of_int t < real_of_int s / 3)"
proof -
  define x where "x = real_of_int s / 3"
  define m where "m = fround 53 (- 1022) x"
  have x0: "0 \<le> x" and x1: "x \<le> 255" using s0 s1 by (simp_all add: x_def)
  have "\<bar>x\<bar> \<le> 2 powi 8" using x0 x1 by simp
  then have "f64 x = Some m" unfolding m_def by (rule f64_finite) simp_all
  then have pd: "py_truediv s 3 = Inr m" by (simp add: py_truediv_def x_def)
  have "(of_int t < m) = (of_int t < x)"
  proof (cases "of_int t < x")
    case True
    have "of_int t < m"
    proof (cases "t < 0")
      case True
      have "0 \<le> m" unfolding m_def using x0 by (rule fround_nonneg)
      then show ?thesis using True by linarith
    next
      case False
      have "3 * t < s" using True by (simp add: x_def)
      then have "3 * t + 1 \<le> s" by linarith
      then have "of_int (3 * t + 1) \<le> real_of_int s" by (simp only: of_int_le_iff)
      then have q: "real_of_int (4 * t + 1) * 2 powi (- 2) \<le> x"
        by (simp add: x_def power_int_minus field_simps)
      have "t < 255" using \<open>3 * t < s\<close> s1 by linarith
      then have "\<bar>4 * t + 1\<bar> < 2 ^ 53" using False by simp
      then have "fround 53 (- 1022) (real_of_int (4 * t + 1) * 2 powi (- 2))
          = real_of_int (4 * t + 1) * 2 powi (- 2)"
        by (rule fround_exact) simp
      moreover have "fround 53 (- 1022) (real_of_int (4 * t + 1) * 2 powi (- 2)) \<le> m"
        unfolding m_def using q by (rule fround_mono) simp
      ultimately have "real_of_int (4 * t + 1) * 2 powi (- 2) \<le> m" by simp
      then show ?thesis by (simp add: power_int_minus field_simps)
    qed
    then show ?thesis using True by simp
  next
    case False
    define t' where "t' = min t 255"
    have "0 \<le> real_of_int t" using False x0 by linarith
    then have t0: "0 \<le> t" by simp
    have "x \<le> real_of_int t'" using False x1 by (simp add: t'_def min_def)
    then have "m \<le> fround 53 (- 1022) (real_of_int t')"
      unfolding m_def by (rule fround_mono) simp
    moreover have "fround 53 (- 1022) (real_of_int t') = real_of_int t'"
      by (rule fround64_of_int) (use t0 in \<open>simp add: t'_def min_def\<close>)
    moreover have "real_of_int t' \<le> real_of_int t" by (simp add: t'_def)
    ultimately have "m \<le> real_of_int t" by linarith
    then show ?thesis using False by simp
  qed
  then show ?thesis using pd by (simp add: x_def)
qed

lemma channel_sum_bounds:
  fixes r g b :: byte
  shows "0 \<le> int (unat r) + int (unat g) + int (unat b)"
    and "int (unat r) + int (unat g) + int (unat b) \<le> 765"
proof -
  have "uint r < 2 ^ 8" "uint g < 2 ^ 8" "uint b < 2 ^ 8"
    using unsigned_less [of r, where 'a = int] unsigned_less [of g, where 'a = int]
      unsigned_less [of b, where 'a = int] by simp_all
  then show "int (unat r) + int (unat g) + int (unat b) \<le> 765" by simp
  show "0 \<le> int (unat r) + int (unat g) + int (unat b)" by simp
qed

lemma corner_test:
  "\<exists>m. py_truediv (int (unat r) + int (unat g) + int (unat b)) 3 = Inr m
     \<and> (of_int t < m) = (\<not> channel_mean (r, g, (b::byte)) \<le> of_int t)"
proof -
  obtain m where m: "py_truediv (int (unat r) + int (unat g) + int (unat b)) 3 = Inr m"
    "(of_int t < m) = (of_int t < real_of_int (int (unat r) + int (unat g) + int (unat b)) / 3)"
    using py_truediv_mean [OF channel_sum_bounds, of r g b t] by blast
  have "(of_int t < m) = (\<not> channel_mean (r, g, b) \<le> of_int t)"
    unfolding m(2) by (simp add: channel_mean_def not_le)
  then show ?thesis using m(1) by blast
qed

lemma corners_loop_eq:
  assumes "\<forall>xy \<in> set cs. 0 \<le> fst xy \<and> fst xy < int (width rgb) \<and> 0 \<le> snd xy \<and> snd xy < int (height rgb)"
  shows "corners_loop rgb t cs
    = Inr (\<forall>xy \<in> set cs. channel_mean (pixel_at rgb (nat (snd xy)) (nat (fst xy))) \<le> of_int t)"
  using assms
proof (induction cs)
  case Nil
  show ?case by simp
next
  case (Cons xy cs)
  obtain x y where xy: "xy = (x, y)" by (cases xy)
  obtain r g b where px: "pixel_at rgb (nat y) (nat x) = (r, g, b)"
    by (cases "pixel_at rgb (nat y) (nat x)")
  have inr: "getpixel rgb xy = Inr (r, g, b)"
    using Cons.prems xy px by (simp add: getpixel_def)
  obtain m where m: "py_truediv (int (unat r) + int (unat g) + int (unat b)) 3 = Inr m"
    "(of_int t < m) = (\<not> channel_mean (r, g, b) \<le> of_int t)"
    using corner_test [of r g b t] by blast
  have ih: "corners_loop rgb t cs
    = Inr (\<forall>xy \<in> set cs. channel_mean (pixel_at rgb (nat (snd xy)) (nat (fst xy))) \<le> of_int t)"
    by (rule Cons.IH) (use Cons.prems in simp)
  show ?case
  proof (cases "channel_mean (r, g, b) \<le> of_int t")
    case True
    then have "\<not> of_int t < m" using m(2) by simp
    then show ?thesis using inr m(1) ih True xy px by simp
  next
    case False
    then have "of_int t < m" using m(2) by simp
    then show ?thesis using inr m(1) False xy px by simp
  qed
qed

lemma background_is_black_eq:
  assumes "0 < width (convert_RGB img)" and "0 < height (convert_RGB img)"
  shows "background_is_black img threshold =
    Inr (channel_mean (pixel_at (convert_RGB img) 0 0) \<le> of_int threshold
       \<and> channel_mean (pixel_at (convert_RGB img) 0 (width (convert_RGB img) - 1)) \<le> of_int threshold
       \<and> channel_mean (pixel_at (convert_RGB img) (height (convert_RGB img) - 1) 0) \<le> of_int threshold
       \<and> channel_mean (pixel_at (convert_RGB img) (height (convert_RGB img) - 1)
            (width (convert_RGB img) - 1)) \<le> of_int threshold)"
proof -
  define rgb where "rgb = convert_RGB img"
  have w: "nat (int (width rgb) - 1) = width rgb - 1" and h: "nat (int (height rgb) - 1) = height rgb - 1"
    by simp_all
  have "corners_loop rgb threshold (corners rgb)
    = Inr (\<forall>xy \<in> set (corners rgb). channel_mean (pixel_at rgb (nat (snd xy)) (nat (fst xy))) \<le> of_int threshold)"
    by (rule corners_loop_eq) (use assms in \<open>auto simp: corners_def Let_def rgb_def\<close>)
  then show ?thesis
    unfolding background_is_black_def Let_def rgb_def [symmetric]
    by (simp add: corners_def Let_def w h)
qed

section \<open>The retry loop\<close>

lemma black_loop_independent:
  assumes "img = None \<or> (\<exists>i. img = Some i \<and> background_is_black i default_threshold = Inr False)"
  shows "final_check (black_loop edit n calls img) = independent_loop edit n calls"
  using assms
proof (induction n arbitrary: calls img)
  case 0
  then show ?case by (auto simp: final_check_def)
next
  case (Suc n)
  show ?case
  proof (cases "first_payload (edit calls)")
    case None
    have "black_loop edit (Suc n) calls img = black_loop edit n (Suc calls) img"
      using Suc.prems None by auto
    then show ?thesis using Suc.IH [OF Suc.prems] None by simp
  next
    case (Some j)
    show ?thesis
    proof (cases "background_is_black j default_threshold")
      case (Inl e)
      then show ?thesis using Some by (simp add: final_check_def)
    next
      case (Inr ok)
      show ?thesis
      proof (cases ok)
        case True
        then show ?thesis using Some Inr by (simp add: final_check_def)
      next
        case False
        have "final_check (black_loop edit n (Suc calls) (Some j)) = independent_loop edit n (Suc calls)"
          by (rule Suc.IH) (use Inr False in simp)
        then show ?thesis using Some Inr False by simp
      qed
    qed
  qed
qed

lemma black_stage_independent:
  "black_stage edit max_black_attempts = independent_loop edit (nat max_black_attempts) 0"
  unfolding black_stage_def by (rule black_loop_independent) simp

lemma independent_loop_calls: "snd (independent_loop edit n calls) \<le> calls + n"
proof (induction n arbitrary: calls)
  case 0
  show ?case by simp
next
  case (Suc n)
  show ?case using Suc.IH [of "Suc calls"]
    by (auto split: option.splits sum.splits bool.splits)
qed

lemma independent_loop_first_ok:
  assumes "k < n" and "attempt_ok (edit (calls + k))"
    and "\<forall>j<k. \<not> attempt_ok (edit (calls + j)) \<and> \<not> attempt_raises (edit (calls + j))"
  shows "independent_loop edit n calls
           = (Inr (the (first_payload (edit (calls + k)))), Suc (calls + k))"
  using assms
proof (induction n arbitrary: calls k)
  case 0
  then show ?case by simp
next
  case (Suc n)
  show ?case
  proof (cases k)
    case 0
    then show ?thesis using Suc.prems(2)
      by (auto simp: attempt_ok_def split: option.splits)
  next
    case (Suc k')
    have here: "\<not> attempt_ok (edit calls)" "\<not> attempt_raises (edit calls)"
      using Suc.prems(3) Suc by force+
    then have step: "independent_loop edit (Suc n) calls = independent_loop edit n (Suc calls)"
      by (auto simp: attempt_ok_def attempt_raises_def split: option.splits sum.splits bool.splits)
    have "independent_loop edit n (Suc calls)
            = (Inr (the (first_payload (edit (Suc calls + k')))), Suc (Suc calls + k'))"
    proof (rule Suc.IH)
      show "k' < n" using Suc.prems(1) Suc by simp
      show "attempt_ok (edit (Suc calls + k'))" using Suc.prems(2) Suc by simp
      show "\<forall>j<k'. \<not> attempt_ok (edit (Suc calls + j)) \<and> \<not> attempt_raises (edit (Suc calls + j))"
      proof (intro allI impI)
        fix j assume "j < k'"
        then have "Suc j < k" using Suc by simp
        then show "\<not> attempt_ok (edit (Suc calls + j)) \<and> \<not> attempt_raises (edit (Suc calls + j))"
          using Suc.prems(3) by (metis add_Suc_shift)
      qed
    qed
    then show ?thesis using step Suc by simp
  qed
qed

lemma independent_loop_success:
  assumes "independent_loop edit n calls = (Inr i, d)"
  shows "calls < d \<and> d \<le> calls + n \<and> first_payload (edit (d - 1)) = Some i
         \<and> attempt_ok (edit (d - 1)) \<and> (\<forall>j. calls \<le> j \<and> j < d - 1 \<longrightarrow> \<not> attempt_ok (edit j))"
  using assms
proof (induction n arbitrary: calls)
  case 0
  then show ?case by simp
next
  case (Suc n)
  show ?case
  proof (cases "attempt_ok (edit calls)")
    case True
    then obtain i' where i': "first_payload (edit calls) = Some i'"
      "background_is_black i' default_threshold = Inr True"
      by (auto simp: attempt_ok_def split: option.splits)
    then have "i = i'" "d = Suc calls" using Suc.prems by simp_all
    then show ?thesis using i' True by auto
  next
    case False
    then have "independent_loop edit n (Suc calls) = (Inr i, d)"
      using Suc.prems
      by (auto simp: attempt_ok_def split: option.splits sum.splits bool.splits)
    from Suc.IH [OF this] have ih: "Suc calls < d" "d \<le> Suc calls + n"
      "first_payload (edit (d - 1)) = Some i" "attempt_ok (edit (d - 1))"
      "\<forall>j. Suc calls \<le> j \<and> j < d - 1 \<longrightarrow> \<not> attempt_ok (edit j)"
      by simp_all
    have "\<forall>j. calls \<le> j \<and> j < d - 1 \<longrightarrow> \<not> attempt_ok (edit j)"
    proof (intro allI impI)
      fix j assume j: "calls \<le> j \<and> j < d - 1"
      show "\<not> attempt_ok (edit j)"
      proof (cases "j = calls")
        case True
        then show ?thesis using False by simp
      next
        case False
        then have "Suc calls \<le> j" using j by simp
        then show ?thesis using ih(5) j by simp
      qed
    qed
    then show ?thesis using ih by simp
  qed
qed

lemma independent_loop_exhausted:
  assumes "\<forall>j<n. \<not> attempt_ok (edit (calls + j))"
  shows "isl (fst (independent_loop edit n calls))"
  using assms
proof (induction n arbitrary: calls)
  case 0
  show ?case by simp
next
  case (Suc n)
  have here: "\<not> attempt_ok (edit calls)" using Suc.prems by force
  have "\<forall>j<n. \<not> attempt_ok (edit (Suc calls + j))"
  proof (intro allI impI)
    fix j assume "j < n"
    then have "Suc j < Suc n" by simp
    then show "\<not> attempt_ok (edit (Suc calls + j))" using Suc.prems by (metis add_Suc_shift)
  qed
  from Suc.IH [OF this] show ?case using here
    by (auto simp: attempt_ok_def split: option.splits sum.splits bool.splits)
qed

section \<open>The constants of the matting code\<close>

lemma fround_nearest:
  assumes p: "0 < p" and k: "emin \<le> k"
    and lo: "(of_int m - 1/2) * 2 powi (k - (int p - 1)) < x"
    and hi: "x < (of_int m + 1/2) * 2 powi (k - (int p - 1))"
    and b1: "2 powi k \<le> x" and b2: "x < 2 powi (k + 1)"
  shows "fround p emin x = of_int m * 2 powi (k - (int p - 1))"
proof -
  define u where "u = k - (int p - 1)"
  have xpos: "0 < x" using b1 p2_pos [of k] by linarith
  have fe: "fround p emin x = of_int (rne (x / 2 powi u)) * 2 powi u"
    unfolding u_def by (rule fround_eval) (use b1 b2 k xpos in simp_all)
  have "of_int m - 1/2 < x / 2 powi u" using lo by (simp add: u_def pos_less_divide_eq)
  moreover have "x / 2 powi u < of_int m + 1/2" using hi by (simp add: u_def pos_divide_less_eq)
  ultimately have "\<bar>x / 2 powi u - of_int m\<bar> < 1/2" by linarith
  then have "rne (x / 2 powi u) = m" by (rule rne_eqI)
  then show ?thesis using fe by (simp add: u_def)
qed

lemma fround_between:
  assumes "0 < p" and "emin \<le> k" and "u = k - (int p - 1)"
    and "lo \<le> x" and "x \<le> hi"
    and "(of_int m - 1/2) * 2 powi u < lo" and "hi < (of_int m + 1/2) * 2 powi u"
    and "2 powi k \<le> lo" and "hi < 2 powi (k + 1)"
  shows "fround p emin x = of_int m * 2 powi u"
proof -
  have "fround p emin x = of_int m * 2 powi (k - (int p - 1))"
  proof (rule fround_nearest)
    show "0 < p" "emin \<le> k" by (rule assms)+
    show "(of_int m - 1/2) * 2 powi (k - (int p - 1)) < x"
      using assms(4,6) unfolding assms(3) by linarith
    show "x < (of_int m + 1/2) * 2 powi (k - (int p - 1))"
      using assms(5,7) unfolding assms(3) by linarith
    show "2 powi k \<le> x" using assms(4,8) by linarith
    show "x < 2 powi (k + 1)" using assms(5,9) by linarith
  qed
  then show ?thesis unfolding assms(3) .
qed

lemma sqrt_195075_lo: "14472739 / 32768 \<le> sqrt 195075"
  by (rule real_le_rsqrt) (simp add: power2_eq_square)

lemma sqrt_195075_hi: "sqrt 195075 \<le> (14472739 + 9/20) / 32768"
  by (rule real_le_lsqrt) (simp_all add: power2_eq_square)

lemma r32_sqrt_195075: "r32 (sqrt 195075) = 14472739 / 32768"
proof -
  have "r32 (sqrt 195075) = of_int 14472739 * 2 powi (- 15)"
    by (rule fround_between [where k = 8, OF _ _ _ sqrt_195075_lo sqrt_195075_hi])
      (simp_all add: power_int_minus)
  then show ?thesis by (simp add: power_int_minus)
qed

lemma r64_sqrt_195075_lo: "14472739 / 32768 \<le> r64 (sqrt 195075)"
proof -
  have "r64 (real_of_int 14472739 * 2 powi (- 15)) = real_of_int 14472739 * 2 powi (- 15)"
    by (rule fround_exact) simp_all
  moreover have "real_of_int 14472739 * 2 powi (- 15) \<le> sqrt 195075"
    using sqrt_195075_lo by (simp add: power_int_minus)
  then have "r64 (real_of_int 14472739 * 2 powi (- 15)) \<le> r64 (sqrt 195075)"
    by (rule fround_mono) simp
  ultimately show ?thesis by (simp add: power_int_minus)
qed

lemma r64_sqrt_195075_hi: "r64 (sqrt 195075) \<le> (14472739 + 9/20) / 32768 + 1 / 2 ^ 44"
proof -
  have "\<bar>sqrt 195075\<bar> \<le> 2 powi 9" using sqrt_195075_hi by simp
  then have "\<bar>r64 (sqrt 195075) - sqrt 195075\<bar> \<le> 2 powi (9 - int 53)"
    by (rule fround_error_le) simp
  moreover have "(2::real) powi (9 - int 53) = 1 / 2 ^ 44"
    by (simp add: power_int_minus inverse_eq_divide)
  ultimately have "r64 (sqrt 195075) \<le> sqrt 195075 + 1 / 2 ^ 44"
    by linarith
  then show ?thesis using sqrt_195075_hi by linarith
qed

lemma bg_dist_value: "bg_dist = Some (r64 (sqrt 195075))"
proof -
  have "\<bar>sqrt 195075\<bar> \<le> 2 powi 9" using sqrt_195075_hi by simp
  then have "f64 (sqrt 195075) = Some (r64 (sqrt 195075))"
    by (rule f64_finite) simp_all
  then show ?thesis by (simp add: bg_dist_def)
qed

lemma bg_dist32: "r32 (r64 (sqrt 195075)) = 14472739 / 32768"
proof -
  have "r32 (r64 (sqrt 195075)) = of_int 14472739 * 2 powi (- 15)"
    by (rule fround_between [where k = 8, OF _ _ _ r64_sqrt_195075_lo r64_sqrt_195075_hi])
      (simp_all add: power_int_minus)
  then show ?thesis by (simp add: power_int_minus)
qed

lemma f32_bg_dist: "f32 (r64 (sqrt 195075)) = Some (14472739 / 32768)"
proof -
  have "\<bar>r64 (sqrt 195075)\<bar> \<le> 2 powi 9"
    using r64_sqrt_195075_lo r64_sqrt_195075_hi by simp
  then have "f32 (r64 (sqrt 195075)) = Some (r32 (r64 (sqrt 195075)))"
    by (rule f32_finite) simp_all
  then show ?thesis by (simp only: bg_dist32)
qed

lemma r64_hundredth_lo: "1 / 100 - 1 / 2 ^ 59 \<le> r64 (1 / 100)"
  and r64_hundredth_hi: "r64 (1 / 100) \<le> 1 / 100 + 1 / 2 ^ 59"
proof -
  have "\<bar>1 / 100 :: real\<bar> \<le> 2 powi (- 6)" by (simp add: power_int_minus)
  then have "\<bar>r64 (1 / 100) - 1 / 100\<bar> \<le> 2 powi (- 6 - int 53)"
    by (rule fround_error_le) simp
  moreover have "(2::real) powi (- 6 - int 53) = 1 / 2 ^ 59"
    by (simp add: power_int_minus inverse_eq_divide)
  ultimately have e: "\<bar>r64 (1 / 100) - 1 / 100\<bar> \<le> 1 / 2 ^ 59" by simp
  show "1 / 100 - 1 / 2 ^ 59 \<le> r64 (1 / 100)" using e by linarith
  show "r64 (1 / 100) \<le> 1 / 100 + 1 / 2 ^ 59" using e by linarith
qed

lemma r32_r64_hundredth: "r32 (r64 (1 / 100)) = 10737418 / 2 ^ 30"
proof -
  have "r32 (r64 (1 / 100)) = of_int 10737418 * 2 powi (- 30)"
    by (rule fround_between [where k = "- 7", OF _ _ _ r64_hundredth_lo r64_hundredth_hi])
      (simp_all add: power_int_minus)
  then show ?thesis by (simp add: power_int_minus)
qed

lemma r32_hundredth: "r32 (1 / 100) = 10737418 / 2 ^ 30"
proof -
  have "r32 (1 / 100) = of_int 10737418 * 2 powi (- 30)"
    by (rule fround_between [where k = "- 7" and lo = "1 / 100" and hi = "1 / 100"])
      (simp_all add: power_int_minus)
  then show ?thesis by (simp add: power_int_minus)
qed

lemma alpha_threshold_value: "alpha_threshold = Some (10737418 / 2 ^ 30)"
proof -
  have "\<bar>1 / 100 :: real\<bar> \<le> 2 powi (- 6)" by (simp add: power_int_minus)
  then have a: "f64 (1 / 100) = Some (r64 (1 / 100))" by (rule f64_finite) simp_all
  have "\<bar>r64 (1 / 100)\<bar> \<le> 2 powi 0" using r64_hundredth_lo r64_hundredth_hi by simp
  then have "f32 (r64 (1 / 100)) = Some (r32 (r64 (1 / 100)))" by (rule f32_finite) simp_all
  then show ?thesis using a by (simp add: alpha_threshold_def r32_r64_hundredth)
qed

section \<open>The arithmetic of one pixel\<close>

lemma uint_byte_le: "uint (c::byte) \<le> 255"
  using unsigned_less [of c, where 'a = int] by simp

lemma chan_uint: "chan c = of_int (uint c)"
  by (simp add: chan_def)

lemma uint_byte_ge: "0 \<le> uint (c::byte)"
  by simp

lemma byte_diff_abs: "\<bar>uint (a::byte) - uint (b::byte)\<bar> \<le> 255"
  using uint_byte_le [of a] uint_byte_le [of b] uint_byte_ge [of a] uint_byte_ge [of b]
  by linarith

lemma chan_nonneg: "0 \<le> chan c"
  unfolding chan_def by (rule of_nat_0_le_iff)

lemma chan_le: "chan c \<le> 255"
proof -
  have "real_of_int (uint c) \<le> real_of_int 255"
    using uint_byte_le [of c] by (simp only: of_int_le_iff)
  then show ?thesis unfolding chan_uint by (simp only: of_int_numeral)
qed

lemma f32_sub_chan: "f32_sub (chan a) (chan b) = Some (of_int (uint a - uint b))"
proof -
  have "\<bar>uint a - uint b\<bar> < 2 ^ 24" using byte_diff_abs [of a b] by simp
  then have "f32 (of_int (uint a - uint b)) = Some (of_int (uint a - uint b))" by (rule f32_of_int)
  then show ?thesis by (simp add: f32_sub_def chan_uint)
qed

lemma square_le_65025:
  fixes d :: int
  assumes "\<bar>d\<bar> \<le> 255"
  shows "d\<^sup>2 \<le> 65025"
proof -
  have "\<bar>d\<bar> \<le> \<bar>255\<bar>" using assms by simp
  then have "d\<^sup>2 \<le> 255\<^sup>2" by (simp only: abs_le_square_iff)
  then show ?thesis by simp
qed

lemma f32_mul_square:
  assumes "\<bar>d\<bar> \<le> 255"
  shows "f32_mul (of_int d) (of_int d) = Some (of_int (d\<^sup>2))"
proof -
  have "0 \<le> d\<^sup>2" by simp
  then have "\<bar>d\<^sup>2\<bar> < 2 ^ 24" using square_le_65025 [OF assms] by simp
  then have "f32 (of_int (d\<^sup>2)) = Some (of_int (d\<^sup>2))" by (rule f32_of_int)
  then show ?thesis by (simp add: f32_mul_def power2_eq_square)
qed

lemma f32_add_int:
  assumes "\<bar>a + b\<bar> < 2 ^ 24"
  shows "f32_add (of_int a) (of_int b) = Some (of_int (a + b))"
  using f32_of_int [OF assms] by (simp add: f32_add_def)

lemma dist2_nonneg: "0 \<le> dist2 w b"
  by (cases w; cases b) (simp add: dist2_def)

lemma dist2_le: "dist2 w b \<le> 195075"
proof -
  obtain wr wg wb where w: "w = (wr, wg, wb)" by (cases w)
  obtain br bg bb where b: "b = (br, bg, bb)" by (cases b)
  have "\<bar>uint wr - uint br\<bar> \<le> 255" "\<bar>uint wg - uint bg\<bar> \<le> 255" "\<bar>uint wb - uint bb\<bar> \<le> 255"
    by (rule byte_diff_abs)+
  then have "(uint wr - uint br)\<^sup>2 \<le> 65025" "(uint wg - uint bg)\<^sup>2 \<le> 65025"
    "(uint wb - uint bb)\<^sup>2 \<le> 65025"
    by (simp_all only: square_le_65025)
  then show ?thesis by (simp add: dist2_def w b)
qed

lemma euclid_nonneg: "0 \<le> euclid w b"
  by (simp add: euclid_def dist2_nonneg)

lemma euclid_le: "euclid w b \<le> sqrt 195075"
proof -
  have "real_of_int (dist2 w b) \<le> real_of_int 195075"
    using dist2_le [of w b] by (simp only: of_int_le_iff)
  then show ?thesis by (simp add: euclid_def)
qed

lemma r32_le_one: "x \<le> 1 \<Longrightarrow> r32 x \<le> 1"
proof -
  assume "x \<le> 1"
  then have "r32 x \<le> r32 (of_int 1)" by (intro fround_mono) simp_all
  moreover have "r32 (of_int 1) = of_int 1" by (rule fround32_of_int) simp
  ultimately show ?thesis by simp
qed

lemma r32_euclid_nonneg: "0 \<le> r32 (euclid w b)"
  by (rule fround_nonneg) (rule euclid_nonneg)

lemma r32_euclid_le: "r32 (euclid w b) \<le> 14472739 / 32768"
proof -
  have "r32 (euclid w b) \<le> r32 (sqrt 195075)"
    by (rule fround_mono) (simp_all add: euclid_le)
  then show ?thesis by (simp only: r32_sqrt_195075)
qed

lemma pixel_dist_value: "pixel_dist w b = Some (r32 (euclid w b))"
proof -
  obtain wr wg wb where w: "w = (wr, wg, wb)" by (cases w)
  obtain br bg bb where b: "b = (br, bg, bb)" by (cases b)
  define dr dg db where "dr = uint wr - uint br" and "dg = uint wg - uint bg"
    and "db = uint wb - uint bb"
  have ab: "\<bar>dr\<bar> \<le> 255" "\<bar>dg\<bar> \<le> 255" "\<bar>db\<bar> \<le> 255"
    unfolding dr_def dg_def db_def by (rule byte_diff_abs)+
  have sq: "dr\<^sup>2 \<le> 65025" "dg\<^sup>2 \<le> 65025" "db\<^sup>2 \<le> 65025"
    using ab by (simp_all only: square_le_65025)
  have d2: "dist2 w b = dr\<^sup>2 + dg\<^sup>2 + db\<^sup>2"
    by (simp add: dist2_def w b dr_def dg_def db_def)
  have s1: "f32_add (of_int (dr\<^sup>2)) (of_int (dg\<^sup>2)) = Some (of_int (dr\<^sup>2 + dg\<^sup>2))"
    by (rule f32_add_int) (use sq in simp)
  have s2: "f32_add (of_int (dr\<^sup>2 + dg\<^sup>2)) (of_int (db\<^sup>2)) = Some (of_int (dr\<^sup>2 + dg\<^sup>2 + db\<^sup>2))"
    by (rule f32_add_int) (use sq in simp)
  have "\<bar>euclid w b\<bar> \<le> 2 powi 9"
    using euclid_nonneg [of w b] euclid_le [of w b] sqrt_195075_hi by simp
  then have rt: "f32 (euclid w b) = Some (r32 (euclid w b))" by (rule f32_finite) simp_all
  have "\<not> real_of_int (dist2 w b) < 0" using dist2_nonneg [of w b] by simp
  then have "f32_sqrt (of_int (dist2 w b)) = Some (r32 (euclid w b))"
    using rt by (simp only: f32_sqrt_def euclid_def if_False)
  then have rt': "f32_sqrt (of_int (dr\<^sup>2 + dg\<^sup>2 + db\<^sup>2)) = Some (r32 (euclid w b))"
    by (simp only: d2)
  have f: "f32_sub (chan wr) (chan br) = Some (of_int dr)"
    "f32_sub (chan wg) (chan bg) = Some (of_int dg)"
    "f32_sub (chan wb) (chan bb) = Some (of_int db)"
    unfolding dr_def dg_def db_def by (rule f32_sub_chan)+
  have m: "f32_mul (of_int dr) (of_int dr) = Some (of_int (dr\<^sup>2))"
    "f32_mul (of_int dg) (of_int dg) = Some (of_int (dg\<^sup>2))"
    "f32_mul (of_int db) (of_int db) = Some (of_int (db\<^sup>2))"
    using ab by (simp_all only: f32_mul_square)
  have "pixel_dist (wr, wg, wb) (br, bg, bb) = Some (r32 (euclid w b))"
    unfolding pixel_dist_def by (simp only: prod.case f m s1 s2 rt' bind.bind_lunit)
  then show ?thesis unfolding w b .
qed

lemma alpha_of_dist_value:
  assumes pd0: "0 \<le> pd" and pd1: "pd \<le> 14472739 / 32768"
  shows "alpha_of_dist pd = Some (r32 (1 - r32 (pd / (14472739 / 32768))))"
    and "0 \<le> r32 (1 - r32 (pd / (14472739 / 32768)))"
    and "r32 (1 - r32 (pd / (14472739 / 32768))) \<le> 1"
proof -
  define x where "x = pd / (14472739 / 32768)"
  define q where "q = r32 x"
  define a where "a = r32 (1 - q)"
  have x0: "0 \<le> x" using pd0 by (simp add: x_def)
  have x1: "x \<le> 1" using pd1 by (simp add: x_def)
  have "\<bar>x\<bar> \<le> 2 powi 0" using x0 x1 by simp
  then have "f32 x = Some q" unfolding q_def by (rule f32_finite) simp_all
  then have dv: "f32_div pd (14472739 / 32768) = Some q" by (simp add: f32_div_def x_def)
  have q0: "0 \<le> q" unfolding q_def using x0 by (rule fround_nonneg)
  have q1: "q \<le> 1" unfolding q_def using x1 by (rule r32_le_one)
  have "\<bar>1 - q\<bar> \<le> 2 powi 0" using q0 q1 by simp
  then have "f32 (1 - q) = Some a" unfolding a_def by (rule f32_finite) simp_all
  then have sb: "f32_sub 1 q = Some a" by (simp add: f32_sub_def)
  have a0: "0 \<le> a" unfolding a_def by (rule fround_nonneg) (use q1 in simp)
  have a1: "a \<le> 1" unfolding a_def by (rule r32_le_one) (use q0 in simp)
  have cl: "clip a 0 1 = a" using a0 a1 by (simp add: clip_def)
  have "alpha_of_dist pd = Some a"
    unfolding alpha_of_dist_def
    by (simp only: bg_dist_value f32_bg_dist dv sb cl bind.bind_lunit)
  then show "alpha_of_dist pd = Some (r32 (1 - r32 (pd / (14472739 / 32768))))"
    by (simp only: a_def q_def x_def)
  show "0 \<le> r32 (1 - r32 (pd / (14472739 / 32768)))" using a0 by (simp only: a_def q_def x_def)
  show "r32 (1 - r32 (pd / (14472739 / 32768))) \<le> 1" using a1 by (simp only: a_def q_def x_def)
qed

lemma pixel_alpha_value: "pixel_alpha w b = Some (alpha_rounded (euclid w b))"
  unfolding pixel_alpha_def alpha_rounded_def
  by (simp only: pixel_dist_value bind.bind_lunit
      alpha_of_dist_value(1) [OF r32_euclid_nonneg r32_euclid_le])

lemma alpha_rounded_nonneg: "0 \<le> alpha_rounded (euclid w b)"
  unfolding alpha_rounded_def by (rule alpha_of_dist_value(2) [OF r32_euclid_nonneg r32_euclid_le])

lemma alpha_rounded_le: "alpha_rounded (euclid w b) \<le> 1"
  unfolding alpha_rounded_def by (rule alpha_of_dist_value(3) [OF r32_euclid_nonneg r32_euclid_le])

lemma alpha_safe_value: "alpha_safe a = Some (if a > 10737418 / 2 ^ 30 then a else 1)"
  unfolding alpha_safe_def by (simp only: alpha_threshold_value bind.bind_lunit)

lemma recover_value:
  assumes lo: "10737418 / 2 ^ 30 < asafe" and hi: "asafe \<le> 1"
  shows "recover c asafe = Some (astype_uint8 (clip (r32 (chan c / asafe)) 0 255))"
proof -
  have pos: "0 < asafe" using lo by (simp add: less_trans [rotated])
  have "chan c \<le> 32768 * (10737418 / 2 ^ 30)" using chan_le [of c] by simp
  also have "\<dots> \<le> 32768 * asafe" using lo by simp
  finally have "chan c / asafe \<le> 32768" using pos by (simp add: pos_divide_le_eq)
  moreover have "0 \<le> chan c / asafe" using chan_nonneg [of c] pos by simp
  ultimately have "\<bar>chan c / asafe\<bar> \<le> 2 powi 15" by simp
  then have "f32 (chan c / asafe) = Some (r32 (chan c / asafe))" by (rule f32_finite) simp_all
  then have "f32_div (chan c) asafe = Some (r32 (chan c / asafe))"
    using pos by (simp add: f32_div_def)
  then show ?thesis unfolding recover_def by (simp only: bind.bind_lunit)
qed

lemma alpha_uint8_value:
  assumes "0 \<le> a" and "a \<le> 1"
  shows "alpha_uint8 a = Some (astype_uint8 (r32 (a * 255)))"
proof -
  have "\<bar>a * 255\<bar> \<le> 2 powi 8" using assms by simp
  then have "f32 (a * 255) = Some (r32 (a * 255))" by (rule f32_finite) simp_all
  then show ?thesis unfolding alpha_uint8_def f32_mul_def by (simp only: bind.bind_lunit)
qed

lemma matte_pixel_value:
  fixes w :: rgb and br bg bb :: byte
  defines "a \<equiv> alpha_rounded (euclid w (br, bg, bb))"
  defines "asafe \<equiv> (if a > 10737418 / 2 ^ 30 then a else 1)"
  shows "matte_pixel w (br, bg, bb) =
    Some (astype_uint8 (clip (r32 (chan br / asafe)) 0 255),
          astype_uint8 (clip (r32 (chan bg / asafe)) 0 255),
          astype_uint8 (clip (r32 (chan bb / asafe)) 0 255),
          astype_uint8 (r32 (a * 255)))"
proof -
  have a0: "0 \<le> a" and a1: "a \<le> 1"
    unfolding a_def by (rule alpha_rounded_nonneg, rule alpha_rounded_le)
  have lo: "10737418 / 2 ^ 30 < asafe" and hi: "asafe \<le> 1"
    using a1 by (simp_all add: asafe_def)
  have pa: "pixel_alpha w (br, bg, bb) = Some a" unfolding a_def by (rule pixel_alpha_value)
  have sf: "alpha_safe a = Some asafe" unfolding asafe_def by (rule alpha_safe_value)
  show ?thesis
    unfolding matte_pixel_def
    by (simp only: prod.case pa sf recover_value [OF lo hi] alpha_uint8_value [OF a0 a1]
        bind.bind_lunit)
qed

lemma matte_pixel_finite: "\<exists>px. matte_pixel w b = Some px"
proof -
  obtain br bg bb where b: "b = (br, bg, bb)" by (cases b)
  show ?thesis unfolding b by (simp only: matte_pixel_value) blast
qed

section \<open>The arrays\<close>

lemma those_map_Some:
  assumes "\<forall>x \<in> set xs. \<exists>y. f x = Some y"
  shows "those (map f xs) = Some (map (\<lambda>x. the (f x)) xs)"
  using assms by (induction xs) auto

lemma extract_broadcast:
  assumes h: "broadcast_dim (height (convert_RGB iw)) (height (convert_RGB ib)) = Some h"
    and w: "broadcast_dim (width (convert_RGB iw)) (width (convert_RGB ib)) = Some w"
  shows "extract_alpha_difference_matting iw ib =
    Inr \<lparr>width = w, height = h,
         pixels = map (\<lambda>i. the (matte_pixel (bpixel (convert_RGB iw) (i div w) (i mod w))
                                              (bpixel (convert_RGB ib) (i div w) (i mod w))))
                      [0..<h * w]\<rparr>"
proof -
  have "those (map (\<lambda>i. matte_pixel (bpixel (convert_RGB iw) (i div w) (i mod w))
                                     (bpixel (convert_RGB ib) (i div w) (i mod w))) [0..<h * w])
      = Some (map (\<lambda>i. the (matte_pixel (bpixel (convert_RGB iw) (i div w) (i mod w))
                                     (bpixel (convert_RGB ib) (i div w) (i mod w)))) [0..<h * w])"
    by (rule those_map_Some) (intro ballI matte_pixel_finite)
  then show ?thesis
    unfolding extract_alpha_difference_matting_def Let_def h w by simp
qed

lemma broadcast_dim_None_iff: "(broadcast_dim m n = None) = (m \<noteq> n \<and> m \<noteq> 1 \<and> n \<noteq> 1)"
  by (simp add: broadcast_dim_def)

lemma extract_mismatch:
  assumes "broadcast_dim (height (convert_RGB iw)) (height (convert_RGB ib)) = None
         \<or> broadcast_dim (width (convert_RGB iw)) (width (convert_RGB ib)) = None"
  shows "extract_alpha_difference_matting iw ib = Inl ValueError"
  using assms unfolding extract_alpha_difference_matting_def Let_def
  by (auto split: option.splits)

lemma wf_convert_RGB: "wf_image img \<Longrightarrow> wf_raster (convert_RGB img)"
  by (cases img) (simp_all add: wf_raster_def)

lemma bpixel_index:
  assumes "i < height im * width im"
  shows "bpixel im (i div width im) (i mod width im) = pixels im ! i"
proof -
  have w0: "0 < width im" using assms by (cases "width im") simp_all
  have "i div width im < height im" using assms w0 by (simp add: less_mult_imp_div_less)
  then have y: "bidx (height im) (i div width im) = i div width im"
    by (auto simp: bidx_def)
  have x: "bidx (width im) (i mod width im) = i mod width im"
    by (auto simp: bidx_def)
  show ?thesis unfolding bpixel_def pixel_at_def y x by simp
qed

lemma extract_same_dims:
  assumes wfw: "wf_image iw" and wfb: "wf_image ib"
    and eqw: "width (convert_RGB iw) = width (convert_RGB ib)"
    and eqh: "height (convert_RGB iw) = height (convert_RGB ib)"
  shows "extract_alpha_difference_matting iw ib =
    Inr \<lparr>width = width (convert_RGB iw), height = height (convert_RGB iw),
         pixels = map (\<lambda>pq. the (matte_pixel (fst pq) (snd pq)))
                      (zip (pixels (convert_RGB iw)) (pixels (convert_RGB ib)))\<rparr>"
proof -
  define W where "W = convert_RGB iw"
  define B where "B = convert_RGB ib"
  define h where "h = height W"
  define w where "w = width W"
  have lw: "length (pixels W) = h * w"
    using wf_convert_RGB [OF wfw] by (simp add: wf_raster_def W_def h_def w_def mult.commute)
  have lb: "length (pixels B) = h * w"
    using wf_convert_RGB [OF wfb] eqw eqh
    by (simp add: wf_raster_def W_def B_def h_def w_def mult.commute)
  have ex: "extract_alpha_difference_matting iw ib =
    Inr \<lparr>width = w, height = h,
         pixels = map (\<lambda>i. the (matte_pixel (bpixel W (i div w) (i mod w))
                                              (bpixel B (i div w) (i mod w))))
                      [0..<h * w]\<rparr>"
    unfolding W_def B_def
    by (rule extract_broadcast) (simp_all add: broadcast_dim_def eqw eqh h_def w_def W_def)
  have "map (\<lambda>i. the (matte_pixel (bpixel W (i div w) (i mod w)) (bpixel B (i div w) (i mod w))))
          [0..<h * w]
      = map (\<lambda>pq. the (matte_pixel (fst pq) (snd pq))) (zip (pixels W) (pixels B))"
  proof (rule nth_equalityI)
    show "length (map (\<lambda>i. the (matte_pixel (bpixel W (i div w) (i mod w))
              (bpixel B (i div w) (i mod w)))) [0..<h * w])
        = length (map (\<lambda>pq. the (matte_pixel (fst pq) (snd pq))) (zip (pixels W) (pixels B)))"
      by (simp add: lw lb)
  next
    fix i
    assume "i < length (map (\<lambda>i. the (matte_pixel (bpixel W (i div w) (i mod w))
              (bpixel B (i div w) (i mod w)))) [0..<h * w])"
    then have i: "i < h * w" by simp
    have pw: "bpixel W (i div w) (i mod w) = pixels W ! i"
      unfolding w_def by (rule bpixel_index) (use i in \<open>simp add: h_def w_def\<close>)
    have "i < height B * width B" using i eqw eqh by (simp add: h_def w_def W_def B_def)
    then have "bpixel B (i div width B) (i mod width B) = pixels B ! i" by (rule bpixel_index)
    then have pb: "bpixel B (i div w) (i mod w) = pixels B ! i"
      using eqw by (simp add: w_def W_def B_def)
    show "map (\<lambda>i. the (matte_pixel (bpixel W (i div w) (i mod w))
              (bpixel B (i div w) (i mod w)))) [0..<h * w] ! i
        = map (\<lambda>pq. the (matte_pixel (fst pq) (snd pq))) (zip (pixels W) (pixels B)) ! i"
      using i by (simp add: pw pb lw lb)
  qed
  then show ?thesis using ex by (simp add: W_def B_def h_def w_def)
qed

section \<open>Particular pixels\<close>

lemma r32_chan: "r32 (chan c) = chan c"
proof -
  have "\<bar>uint c\<bar> < 2 ^ 24" using uint_byte_le [of c] uint_byte_ge [of c] by simp
  then show ?thesis unfolding chan_uint by (rule fround32_of_int)
qed

lemma astype_chan: "astype_uint8 (chan c) = c"
proof -
  have "0 \<le> real_of_int (uint c)" using uint_byte_ge [of c] by (simp only: of_int_0_le_iff)
  then have "astype_uint8 (real_of_int (uint c)) = word_of_int \<lfloor>real_of_int (uint c)\<rfloor>"
    by (simp only: astype_uint8_def if_True)
  also have "\<dots> = word_of_int (uint c)" by (simp only: floor_of_int)
  also have "\<dots> = c" by simp
  finally show ?thesis unfolding chan_uint .
qed

lemma clip_chan: "clip (chan c) 0 255 = chan c"
  using chan_nonneg [of c] chan_le [of c] by (simp add: clip_def)

lemma recovered_unit_divisor: "astype_uint8 (clip (r32 (chan c / 1)) 0 255) = c"
  by (simp only: div_by_1 r32_chan clip_chan astype_chan)

lemma recovered_in_range: "0 \<le> clip v 0 255 \<and> clip v 0 255 \<le> 255"
  by (simp add: clip_def)

lemma r32_one: "r32 1 = 1"
  using fround32_of_int [of 1] by simp

lemma r32_255: "r32 255 = 255"
  using fround32_of_int [of 255] by simp

lemma alpha_scaled_in_range:
  assumes "0 \<le> a" and "a \<le> 1"
  shows "0 \<le> r32 (a * 255) \<and> r32 (a * 255) \<le> 255"
proof -
  have "0 \<le> r32 (a * 255)" by (rule fround_nonneg) (use assms in simp)
  moreover have "r32 (a * 255) \<le> r32 255" by (rule fround_mono) (use assms in simp_all)
  ultimately show ?thesis by (simp add: r32_255)
qed

lemma astype_255: "astype_uint8 255 = 255"
  by (simp add: astype_uint8_def)

lemma astype_0: "astype_uint8 0 = 0"
  by (simp add: astype_uint8_def)

lemma alpha_rounded_zero: "alpha_rounded 0 = 1"
  by (simp add: alpha_rounded_def r32_one)

lemma alpha_rounded_max: "alpha_rounded (sqrt 195075) = 0"
  by (simp add: alpha_rounded_def r32_sqrt_195075 r32_one)

lemma r32_alpha_rounded: "r32 (alpha_rounded d) = alpha_rounded d"
  unfolding alpha_rounded_def by (rule fround_idem) simp

lemma low_alpha_not_above:
  assumes "alpha_rounded d \<le> 1 / 100"
  shows "\<not> alpha_rounded d > 10737418 / 2 ^ 30"
proof -
  have "r32 (alpha_rounded d) \<le> r32 (1 / 100)" using assms by (rule fround_mono) simp
  then have "alpha_rounded d \<le> 10737418 / 2 ^ 30"
    by (simp only: r32_alpha_rounded r32_hundredth)
  then show ?thesis by simp
qed

lemma euclid_same: "euclid p p = 0"
  by (cases p) (simp add: euclid_def dist2_def)

lemma matte_pixel_same: "matte_pixel (r, g, b) (r, g, b) = Some (r, g, b, 255)"
proof -
  have "matte_pixel (r, g, b) (r, g, b) =
    Some (astype_uint8 (clip (r32 (chan r / 1)) 0 255),
          astype_uint8 (clip (r32 (chan g / 1)) 0 255),
          astype_uint8 (clip (r32 (chan b / 1)) 0 255),
          astype_uint8 (r32 (1 * 255)))"
    using matte_pixel_value [of "(r, g, b)" r g b]
    by (simp only: euclid_same alpha_rounded_zero if_cancel)
  then show ?thesis
    by (simp only: recovered_unit_divisor mult_1 r32_255 astype_255)
qed

lemma matte_pixel_low_alpha:
  assumes "alpha_rounded (euclid w (br, bg, bb)) \<le> 1 / 100"
  shows "matte_pixel w (br, bg, bb) =
    Some (br, bg, bb, astype_uint8 (r32 (alpha_rounded (euclid w (br, bg, bb)) * 255)))"
proof -
  have "matte_pixel w (br, bg, bb) =
    Some (astype_uint8 (clip (r32 (chan br / 1)) 0 255),
          astype_uint8 (clip (r32 (chan bg / 1)) 0 255),
          astype_uint8 (clip (r32 (chan bb / 1)) 0 255),
          astype_uint8 (r32 (alpha_rounded (euclid w (br, bg, bb)) * 255)))"
    using matte_pixel_value [of w br bg bb]
    by (simp only: low_alpha_not_above [OF assms] if_False)
  then show ?thesis by (simp only: recovered_unit_divisor)
qed

lemma euclid_white_black: "euclid (255, 255, 255) (0, 0, 0) = sqrt 195075"
  by (simp add: euclid_def dist2_def)

lemma matte_pixel_white_black: "matte_pixel (255, 255, 255) (0, 0, 0) = Some (0, 0, 0, 0)"
proof -
  have "alpha_rounded (euclid (255, 255, 255) (0, 0, 0)) \<le> 1 / 100"
    unfolding euclid_white_black alpha_rounded_max by simp
  from matte_pixel_low_alpha [OF this]
  have "matte_pixel (255, 255, 255) (0, 0, 0) = Some (0, 0, 0, astype_uint8 (r32 (0 * 255)))"
    by (simp only: euclid_white_black alpha_rounded_max)
  then show ?thesis by (simp add: astype_0)
qed

lemma euclid_white_near_black: "euclid (255, 255, 255) (1, 0, 0) = sqrt 194566"
  by (simp add: euclid_def dist2_def)

lemma alpha_rounded_near_black: "alpha_rounded (sqrt 194566) \<le> 1 / 512"
proof -
  define pd where "pd = r32 (sqrt 194566)"
  define q where "q = r32 (pd / (14472739 / 32768))"
  have "441 \<le> sqrt 194566" by (rule real_le_rsqrt) simp
  then have "r32 (of_int 441) \<le> pd" unfolding pd_def by (intro fround_mono) simp_all
  moreover have "r32 (of_int 441) = of_int 441" by (rule fround32_of_int) simp
  ultimately have pd: "441 \<le> pd" by simp
  have "real_of_int 511 * 2 powi (- 9) \<le> pd / (14472739 / 32768)"
    using pd by (simp add: power_int_minus field_simps)
  then have "r32 (real_of_int 511 * 2 powi (- 9)) \<le> q"
    unfolding q_def by (rule fround_mono) simp
  moreover have "r32 (real_of_int 511 * 2 powi (- 9)) = real_of_int 511 * 2 powi (- 9)"
    by (rule fround_exact) simp_all
  ultimately have "real_of_int 511 * 2 powi (- 9) \<le> q" by simp
  then have "1 - q \<le> real_of_int 1 * 2 powi (- 9)" by (simp add: power_int_minus)
  then have "r32 (1 - q) \<le> r32 (real_of_int 1 * 2 powi (- 9))" by (rule fround_mono) simp
  moreover have "r32 (real_of_int 1 * 2 powi (- 9)) = real_of_int 1 * 2 powi (- 9)"
    by (rule fround_exact) simp_all
  ultimately have "r32 (1 - q) \<le> 1 / 512" by (simp add: power_int_minus)
  then show ?thesis by (simp only: alpha_rounded_def q_def pd_def)
qed

lemma pixel_index_less:
  assumes "y < h" and "x < (w::nat)"
  shows "y * w + x < h * w"
proof -
  have "y * w + x < y * w + w" using assms(2) by simp
  also have "\<dots> = Suc y * w" by simp
  also have "\<dots> \<le> h * w" using assms(1) by (intro mult_le_mono1) simp
  finally show ?thesis .
qed

lemma upt_0_4: "[0..<4] = [0, 1, 2, 3]"
  by code_simp

lemma broadcast_example:
  "extract_alpha_difference_matting
       (RGB \<lparr>width = 1, height = 1, pixels = [(7, 7, 7)]\<rparr>)
       (RGB \<lparr>width = 2, height = 2, pixels = [(7, 7, 7), (7, 7, 7), (7, 7, 7), (7, 7, 7)]\<rparr>)
     = Inr \<lparr>width = 2, height = 2,
         pixels = map (\<lambda>i. the (matte_pixel
            (bpixel (convert_RGB (RGB \<lparr>width = 1, height = 1, pixels = [(7, 7, 7)]\<rparr>))
               (i div 2) (i mod 2))
            (bpixel (convert_RGB (RGB \<lparr>width = 2, height = 2,
                pixels = [(7, 7, 7), (7, 7, 7), (7, 7, 7), (7, 7, 7)]\<rparr>))
               (i div 2) (i mod 2))))
           [0..<2 * 2]\<rparr>"
  by (rule extract_broadcast) (simp_all add: broadcast_dim_def)

lemma broadcast_single_pixel:
  "width im = 1 \<Longrightarrow> height im = 1 \<Longrightarrow> bpixel im y x = pixels im ! 0"
  by (simp add: bpixel_def bidx_def pixel_at_def)

lemma broadcast_square:
  "i < 4 \<Longrightarrow> bpixel \<lparr>width = 2, height = 2,
      pixels = [(7, 7, 7), (7, 7, 7), (7, 7, 7), (7, 7, 7)::rgb]\<rparr> (i div 2) (i mod 2) = (7, 7, 7)"
  using bpixel_index [of i "\<lparr>width = 2, height = 2,
      pixels = [(7, 7, 7), (7, 7, 7), (7, 7, 7), (7, 7, 7)::rgb]\<rparr>"]
  by (auto simp: less_Suc_eq numeral_eq_Suc)

section \<open>The alpha estimate against the exact formula\<close>

lemma reference_distance_value: "reference_distance = sqrt 195075"
  by (simp add: reference_distance_def)

lemma alpha_spec_value: "alpha_spec w b = 1 - euclid w b / sqrt 195075"
proof -
  have pos: "0 < sqrt (195075::real)" by simp
  have "0 \<le> euclid w b / sqrt 195075" using euclid_nonneg [of w b] by simp
  moreover have "euclid w b / sqrt 195075 \<le> 1"
    using euclid_le [of w b] pos by (simp only: pos_divide_le_eq mult_1)
  ultimately show ?thesis
    by (simp add: alpha_spec_def reference_distance_value clip_def)
qed

lemma alpha_rounded_error:
  assumes d0: "0 \<le> d" and d1: "d \<le> sqrt 195075"
  shows "\<bar>alpha_rounded d - (1 - d / sqrt 195075)\<bar> \<le> 1 / 2 ^ 22"
proof -
  define D :: real where "D = sqrt 195075"
  define D32 :: real where "D32 = 14472739 / 32768"
  define \<epsilon> :: real where "\<epsilon> = 1 / 2 ^ 15"
  define \<delta> :: real where "\<delta> = (9 / 20) / 32768"
  define pd where "pd = r32 d"
  define x where "x = pd / D32"
  define q where "q = r32 x"
  define a where "a = r32 (1 - q)"
  have D32pos: "0 < D32" by (simp add: D32_def)
  have DD: "D32 \<le> D" "D \<le> D32 + \<delta>"
    using sqrt_195075_lo sqrt_195075_hi by (simp_all add: D_def D32_def \<delta>_def)
  have Dpos: "0 < D" using D32pos DD(1) by linarith
  have dD: "d \<le> D" using d1 by (simp add: D_def)
  have "\<bar>d\<bar> \<le> 2 powi 9" using d0 dD DD(2) by (simp add: D32_def \<delta>_def)
  then have "\<bar>pd - d\<bar> \<le> 2 powi (9 - int 24)" unfolding pd_def by (rule fround_error_le) simp
  moreover have "(2::real) powi (9 - int 24) = \<epsilon>"
    by (simp add: \<epsilon>_def power_int_minus inverse_eq_divide)
  ultimately have pde: "\<bar>pd - d\<bar> \<le> \<epsilon>" by simp
  have pd0: "0 \<le> pd" unfolding pd_def using d0 by (rule fround_nonneg)
  have "pd \<le> r32 (sqrt 195075)" unfolding pd_def using d1 by (rule fround_mono) simp
  then have pd1: "pd \<le> D32" by (simp only: r32_sqrt_195075 D32_def)
  have x0: "0 \<le> x" using pd0 D32pos by (simp add: x_def)
  have x1: "x \<le> 1" using pd1 D32pos by (simp add: x_def)
  have "\<bar>x\<bar> \<le> 2 powi 0" using x0 x1 by simp
  then have "\<bar>q - x\<bar> \<le> 2 powi (0 - int 24)" unfolding q_def by (rule fround_error_le) simp
  moreover have "(2::real) powi (0 - int 24) = 1 / 2 ^ 24"
    by (simp add: power_int_minus inverse_eq_divide)
  ultimately have qe: "\<bar>q - x\<bar> \<le> 1 / 2 ^ 24" by simp
  have q0: "0 \<le> q" unfolding q_def using x0 by (rule fround_nonneg)
  have q1: "q \<le> 1" unfolding q_def using x1 by (rule r32_le_one)
  have "\<bar>1 - q\<bar> \<le> 2 powi 0" using q0 q1 by simp
  then have "\<bar>a - (1 - q)\<bar> \<le> 2 powi (0 - int 24)" unfolding a_def by (rule fround_error_le) simp
  then have ae: "\<bar>a - (1 - q)\<bar> \<le> 1 / 2 ^ 24"
    using \<open>(2::real) powi (0 - int 24) = 1 / 2 ^ 24\<close> by simp
  have "d * (D - D32) \<le> D * \<delta>"
    by (rule mult_mono) (use dD DD d0 Dpos in simp_all)
  then have "d * D \<le> d * D32 + \<delta> * D" by (simp add: algebra_simps)
  then have "d * D / (D32 * D) \<le> (d * D32 + \<delta> * D) / (D32 * D)"
    by (rule divide_right_mono) (use D32pos Dpos in simp)
  then have dd: "d / D32 \<le> d / D + \<delta> / D32"
    using D32pos Dpos by (simp add: add_divide_distrib)
  have pdu: "pd \<le> d + \<epsilon>" and pdl: "d - \<epsilon> \<le> pd" using pde by linarith+
  have D32nn: "0 \<le> D32" using D32pos by simp
  have "x \<le> (d + \<epsilon>) / D32"
    unfolding x_def using pdu D32nn by (rule divide_right_mono)
  then have xup: "x \<le> d / D + (\<epsilon> + \<delta>) / D32"
    using dd by (simp add: add_divide_distrib)
  have "d / D \<le> d / D32"
    by (rule divide_left_mono) (use DD(1) d0 D32pos Dpos in simp_all)
  moreover have "(d - \<epsilon>) / D32 \<le> x"
    unfolding x_def using pdl D32nn by (rule divide_right_mono)
  moreover have "0 \<le> \<delta> / D32" using D32pos by (simp add: \<delta>_def)
  moreover have "(d - \<epsilon>) / D32 = d / D32 - \<epsilon> / D32" by (rule diff_divide_distrib)
  moreover have "(\<epsilon> + \<delta>) / D32 = \<epsilon> / D32 + \<delta> / D32" by (rule add_divide_distrib)
  ultimately have xlo: "d / D - (\<epsilon> + \<delta>) / D32 \<le> x" by linarith
  have num: "(\<epsilon> + \<delta>) / D32 + 2 / 2 ^ 24 \<le> 1 / 2 ^ 22"
    by (simp add: \<epsilon>_def \<delta>_def D32_def)
  have "\<bar>a - (1 - d / D)\<bar> \<le> (\<epsilon> + \<delta>) / D32 + 2 / 2 ^ 24"
    using ae qe xup xlo by linarith
  then have "\<bar>a - (1 - d / D)\<bar> \<le> 1 / 2 ^ 22" using num by linarith
  then show ?thesis
    by (simp only: alpha_rounded_def a_def q_def x_def pd_def D_def D32_def)
qed

lemma euclid_gap:
  assumes "euclid w b < euclid w' b'"
  shows "1 / (2 * sqrt 195075) \<le> euclid w' b' - euclid w b"
proof -
  define d where "d = euclid w b"
  define d' where "d' = euclid w' b'"
  define D :: real where "D = sqrt 195075"
  have Dpos: "0 < D" by (simp add: D_def)
  have d0: "0 \<le> d" and d'0: "0 \<le> d'" by (simp_all add: d_def d'_def euclid_nonneg)
  have dD: "d \<le> D" and d'D: "d' \<le> D" by (simp_all add: d_def d'_def D_def euclid_le)
  have lt: "d < d'" using assms by (simp add: d_def d'_def)
  have "real_of_int (dist2 w b) < real_of_int (dist2 w' b')"
    using assms by (simp only: euclid_def real_sqrt_less_iff)
  then have "dist2 w b + 1 \<le> dist2 w' b'" by simp
  then have "real_of_int (dist2 w b + 1) \<le> real_of_int (dist2 w' b')"
    by (simp only: of_int_le_iff)
  then have s: "real_of_int (dist2 w b) + 1 \<le> real_of_int (dist2 w' b')" by simp
  have sq: "d * d = real_of_int (dist2 w b)" "d' * d' = real_of_int (dist2 w' b')"
    using dist2_nonneg [of w b] dist2_nonneg [of w' b'] by (simp_all add: d_def d'_def euclid_def)
  have "1 \<le> d' * d' - d * d" using s sq by linarith
  also have "\<dots> = (d' - d) * (d' + d)" by (simp add: algebra_simps)
  also have "\<dots> \<le> (d' - d) * (2 * D)"
    by (rule mult_left_mono) (use lt dD d'D in simp_all)
  finally have "1 \<le> (d' - d) * (2 * D)" .
  then have "1 / (2 * D) \<le> d' - d" using Dpos by (simp add: pos_divide_le_eq)
  then show ?thesis by (simp only: d_def d'_def D_def)
qed

lemma alpha_rounded_strict:
  assumes "euclid w b < euclid w' b'"
  shows "alpha_rounded (euclid w' b') < alpha_rounded (euclid w b)"
proof -
  define d where "d = euclid w b"
  define d' where "d' = euclid w' b'"
  define D :: real where "D = sqrt 195075"
  have Dpos: "0 < D" by (simp add: D_def)
  have DD: "D * D = 195075" by (simp add: D_def)
  have e: "\<bar>alpha_rounded d - (1 - d / D)\<bar> \<le> 1 / 2 ^ 22"
    unfolding d_def D_def by (rule alpha_rounded_error) (rule euclid_nonneg, rule euclid_le)
  have e': "\<bar>alpha_rounded d' - (1 - d' / D)\<bar> \<le> 1 / 2 ^ 22"
    unfolding d'_def D_def by (rule alpha_rounded_error) (rule euclid_nonneg, rule euclid_le)
  have "1 / (2 * D) \<le> d' - d" unfolding d_def d'_def D_def using assms by (rule euclid_gap)
  then have "1 / (2 * D) / D \<le> (d' - d) / D"
    by (rule divide_right_mono) (use Dpos in simp)
  moreover have "1 / (2 * D) / D = 1 / (2 * (D * D))" by simp
  moreover have "1 / (2 * (D * D)) = 1 / 390150" unfolding DD by simp
  moreover have "(d' - d) / D = d' / D - d / D" by (rule diff_divide_distrib)
  ultimately have gap: "1 / 390150 \<le> d' / D - d / D" by linarith
  have "(2::real) / 2 ^ 22 < 1 / 390150" by simp
  then have "alpha_rounded d' < alpha_rounded d" using e e' gap by linarith
  then show ?thesis by (simp only: d_def d'_def)
qed

lemma sqrt_3_lo: "(14529495 + 1 / 10) / 2 ^ 23 \<le> sqrt 3"
  by (rule real_le_rsqrt) (simp add: power2_eq_square)

lemma sqrt_3_hi: "sqrt 3 \<le> (14529495 + 4 / 10) / 2 ^ 23"
  by (rule real_le_lsqrt) (simp_all add: power2_eq_square)

lemma r32_sqrt_3: "r32 (sqrt 3) = 14529495 / 2 ^ 23"
proof -
  have "r32 (sqrt 3) = of_int 14529495 * 2 powi (- 23)"
    by (rule fround_between [where k = 0, OF _ _ _ sqrt_3_lo sqrt_3_hi])
      (simp_all add: power_int_minus)
  then show ?thesis by (simp add: power_int_minus)
qed

lemma r32_quotient_sqrt_3: "r32 (14529495 / 2 ^ 23 / (14472739 / 32768)) = 8421505 / 2 ^ 31"
proof -
  have "r32 (14529495 / 2 ^ 23 / (14472739 / 32768)) = of_int 8421505 * 2 powi (- 31)"
    by (rule fround_between [where k = "- 8" and lo = "14529495 / 2 ^ 23 / (14472739 / 32768)"
          and hi = "14529495 / 2 ^ 23 / (14472739 / 32768)"])
      (simp_all add: power_int_minus)
  then show ?thesis by (simp add: power_int_minus)
qed

lemma r32_complement_sqrt_3: "r32 (1 - 8421505 / 2 ^ 31) = 16711423 / 2 ^ 24"
proof -
  have "r32 (1 - 8421505 / 2 ^ 31) = of_int 16711423 * 2 powi (- 24)"
    by (rule fround_between [where k = "- 1" and lo = "1 - 8421505 / 2 ^ 31"
          and hi = "1 - 8421505 / 2 ^ 31"])
      (simp_all add: power_int_minus)
  then show ?thesis by (simp add: power_int_minus)
qed

lemma alpha_rounded_sqrt_3: "alpha_rounded (sqrt 3) = 16711423 / 2 ^ 24"
  unfolding alpha_rounded_def
  by (simp only: r32_sqrt_3 r32_quotient_sqrt_3 r32_complement_sqrt_3)

lemma euclid_gray_1: "euclid (1, 1, 1) (0, 0, 0) = sqrt 3"
  by (simp add: euclid_def dist2_def)

lemma alpha_spec_gray_1: "alpha_spec (1, 1, 1) (0, 0, 0) = 254 / 255"
proof -
  have "sqrt 195075 = sqrt (3 * 255\<^sup>2)" by simp
  also have "\<dots> = sqrt 3 * 255" by (simp only: real_sqrt_mult real_sqrt_abs abs_numeral)
  finally have "sqrt 3 / sqrt 195075 = 1 / 255" by simp
  then show ?thesis unfolding alpha_spec_value euclid_gray_1 by simp
qed

section \<open>Claims about the background predicate and the retry loop\<close>

text \<open>
  C3. On an image with at least one pixel, \<open>background_is_black\<close> returns true exactly
  when each of the four corner pixels (top-left, top-right, bottom-left, bottom-right)
  of the RGB-coerced image has a mean channel value of at most the threshold. The mean
  on the right-hand side is the exact one; the binary64 rounding of the division never
  changes the comparison.
\<close>

theorem C3_background_is_black_corners:
  assumes "0 < width (convert_RGB img)" and "0 < height (convert_RGB img)"
  shows "background_is_black img threshold =
    Inr (channel_mean (pixel_at (convert_RGB img) 0 0) \<le> of_int threshold
       \<and> channel_mean (pixel_at (convert_RGB img) 0 (width (convert_RGB img) - 1)) \<le> of_int threshold
       \<and> channel_mean (pixel_at (convert_RGB img) (height (convert_RGB img) - 1) 0) \<le> of_int threshold
       \<and> channel_mean (pixel_at (convert_RGB img) (height (convert_RGB img) - 1)
            (width (convert_RGB img) - 1)) \<le> of_int threshold)"
  using assms by (rule background_is_black_eq)

text \<open>
  The instances named in the claim, at the default threshold 20: an all-black image, an
  all-white image, corners of mean exactly 20, and one corner of mean 21.
\<close>

theorem C3_background_is_black_corners_witness:
  "0 < width (convert_RGB (RGB \<lparr>width = 2, height = 2, pixels = [(0, 0, 0), (0, 0, 0), (0, 0, 0), (0, 0, 0)]\<rparr>))
   \<and> 0 < height (convert_RGB (RGB \<lparr>width = 2, height = 2, pixels = [(0, 0, 0), (0, 0, 0), (0, 0, 0), (0, 0, 0)]\<rparr>))
   \<and> background_is_black
        (RGB \<lparr>width = 2, height = 2, pixels = [(0, 0, 0), (0, 0, 0), (0, 0, 0), (0, 0, 0)]\<rparr>)
        default_threshold = Inr True
   \<and> background_is_black
        (RGBA \<lparr>width = 2, height = 2, pixels = [(255, 255, 255, 255), (255, 255, 255, 255),
           (255, 255, 255, 255), (255, 255, 255, 255)]\<rparr>)
        default_threshold = Inr False
   \<and> background_is_black
        (RGB \<lparr>width = 2, height = 2, pixels = [(20, 20, 20), (19, 20, 21), (60, 0, 0), (0, 0, 0)]\<rparr>)
        default_threshold = Inr True
   \<and> background_is_black
        (RGB \<lparr>width = 2, height = 2, pixels = [(20, 20, 20), (19, 20, 21), (60, 0, 0), (21, 21, 21)]\<rparr>)
        default_threshold = Inr False"
  using
    C3_background_is_black_corners [of "RGB \<lparr>width = 2, height = 2, pixels = [(0, 0, 0), (0, 0, 0), (0, 0, 0), (0, 0, 0)]\<rparr>" default_threshold]
    C3_background_is_black_corners [of "RGBA \<lparr>width = 2, height = 2, pixels = [(255, 255, 255, 255), (255, 255, 255, 255),
           (255, 255, 255, 255), (255, 255, 255, 255)]\<rparr>" default_threshold]
    C3_background_is_black_corners [of "RGB \<lparr>width = 2, height = 2, pixels = [(20, 20, 20), (19, 20, 21), (60, 0, 0), (0, 0, 0)]\<rparr>" default_threshold]
    C3_background_is_black_corners [of "RGB \<lparr>width = 2, height = 2, pixels = [(20, 20, 20), (19, 20, 21), (60, 0, 0), (21, 21, 21)]\<rparr>" default_threshold]
  by (simp add: channel_mean_def pixel_at_def drop_alpha_def default_threshold_def)

text \<open>
  C2. The black-background stage issues at most \<open>max_black_attempts\<close> edit requests
  (at most 5 in generate.py). It stops at the first attempt that returns a payload
  passing \<open>background_is_black\<close>: if attempt \<open>k + 1\<close> is the first such attempt (and the
  predicate raised on no earlier payload), the stage succeeds with that payload after
  exactly \<open>k + 1\<close> requests, and every success is of this form. If none of the allowed
  attempts is such an attempt, the stage ends with an error.
\<close>

theorem C2_black_stage_bounded_retry:
  "snd (black_stage edit max_black_attempts) \<le> nat max_black_attempts
   \<and> snd (main_black_stage edit) \<le> 5
   \<and> (\<forall>k. k < nat max_black_attempts \<and> attempt_ok (edit k)
          \<and> (\<forall>j<k. \<not> attempt_ok (edit j) \<and> \<not> attempt_raises (edit j))
        \<longrightarrow> black_stage edit max_black_attempts = (Inr (the (first_payload (edit k))), Suc k))
   \<and> (\<forall>i calls. black_stage edit max_black_attempts = (Inr i, calls)
        \<longrightarrow> 0 < calls \<and> calls \<le> nat max_black_attempts
            \<and> first_payload (edit (calls - 1)) = Some i \<and> attempt_ok (edit (calls - 1))
            \<and> (\<forall>j<calls - 1. \<not> attempt_ok (edit j)))
   \<and> ((\<forall>j<nat max_black_attempts. \<not> attempt_ok (edit j))
        \<longrightarrow> isl (fst (black_stage edit max_black_attempts)))"
proof (intro conjI allI impI)
  show "snd (black_stage edit max_black_attempts) \<le> nat max_black_attempts"
    using independent_loop_calls [of edit "nat max_black_attempts" 0]
    by (simp add: black_stage_independent)
  show "snd (main_black_stage edit) \<le> 5"
    using independent_loop_calls [of edit "nat 5" 0]
    by (simp add: main_black_stage_def black_stage_independent)
next
  fix k
  assume a: "k < nat max_black_attempts \<and> attempt_ok (edit k)
    \<and> (\<forall>j<k. \<not> attempt_ok (edit j) \<and> \<not> attempt_raises (edit j))"
  have "independent_loop edit (nat max_black_attempts) 0
      = (Inr (the (first_payload (edit (0 + k)))), Suc (0 + k))"
    by (rule independent_loop_first_ok) (use a in simp_all)
  then show "black_stage edit max_black_attempts = (Inr (the (first_payload (edit k))), Suc k)"
    by (simp add: black_stage_independent)
next
  fix i calls
  assume "black_stage edit max_black_attempts = (Inr i, calls)"
  then have "independent_loop edit (nat max_black_attempts) 0 = (Inr i, calls)"
    by (simp add: black_stage_independent)
  from independent_loop_success [OF this]
  show "0 < calls" "calls \<le> nat max_black_attempts" "first_payload (edit (calls - 1)) = Some i"
    "attempt_ok (edit (calls - 1))"
    by simp_all
  fix j assume "j < calls - 1"
  then show "\<not> attempt_ok (edit j)"
    using independent_loop_success [OF \<open>independent_loop edit (nat max_black_attempts) 0 = (Inr i, calls)\<close>]
    by simp
next
  assume "\<forall>j<nat max_black_attempts. \<not> attempt_ok (edit j)"
  then have "isl (fst (independent_loop edit (nat max_black_attempts) 0))"
    by (intro independent_loop_exhausted) simp
  then show "isl (fst (black_stage edit max_black_attempts))"
    by (simp add: black_stage_independent)
qed

text \<open>
  A run of five allowed attempts: the first response has no image, the second an
  all-white image, the third an all-black one. The stage returns the third payload
  after three requests.
\<close>

theorem C2_black_stage_bounded_retry_witness:
  "black_stage
     (\<lambda>k. if k = 0 then [None]
          else if k = 1 then [Some (RGB \<lparr>width = 1, height = 1, pixels = [(255, 255, 255)]\<rparr>)]
          else [None, Some (RGB \<lparr>width = 1, height = 1, pixels = [(0, 0, 0)]\<rparr>)]) 5
   = (Inr (RGB \<lparr>width = 1, height = 1, pixels = [(0, 0, 0)]\<rparr>), 3)"
proof -
  define edit :: "nat \<Rightarrow> response" where
    "edit = (\<lambda>k. if k = 0 then [None]
          else if k = 1 then [Some (RGB \<lparr>width = 1, height = 1, pixels = [(255, 255, 255)]\<rparr>)]
          else [None, Some (RGB \<lparr>width = 1, height = 1, pixels = [(0, 0, 0)]\<rparr>)])"
  have ok: "attempt_ok (edit 2)"
    by (simp add: edit_def attempt_ok_def background_is_black_eq channel_mean_def pixel_at_def
        default_threshold_def)
  have e0: "\<not> attempt_ok (edit 0) \<and> \<not> attempt_raises (edit 0)"
    by (simp add: edit_def attempt_ok_def attempt_raises_def)
  have e1: "\<not> attempt_ok (edit 1) \<and> \<not> attempt_raises (edit 1)"
    by (simp add: edit_def attempt_ok_def attempt_raises_def background_is_black_eq
        channel_mean_def pixel_at_def default_threshold_def)
  have before: "\<forall>j<2. \<not> attempt_ok (edit j) \<and> \<not> attempt_raises (edit j)"
  proof (intro allI impI)
    fix j :: nat assume "j < 2"
    then have "j = 0 \<or> j = 1" by linarith
    then show "\<not> attempt_ok (edit j) \<and> \<not> attempt_raises (edit j)" using e0 e1 by blast
  qed
  have imp: "(2::nat) < nat 5 \<and> attempt_ok (edit 2)
        \<and> (\<forall>j<2. \<not> attempt_ok (edit j) \<and> \<not> attempt_raises (edit j))
      \<longrightarrow> black_stage edit 5 = (Inr (the (first_payload (edit 2))), Suc 2)"
    by (rule C2_black_stage_bounded_retry [of edit 5, THEN conjunct2, THEN conjunct2,
          THEN conjunct1, THEN spec])
  have prem: "(2::nat) < nat 5 \<and> attempt_ok (edit 2)
        \<and> (\<forall>j<2. \<not> attempt_ok (edit j) \<and> \<not> attempt_raises (edit j))"
    using ok before by simp
  have "black_stage edit 5 = (Inr (the (first_payload (edit 2))), Suc 2)"
    using imp prem by (rule mp)
  moreover have "the (first_payload (edit 2)) = RGB \<lparr>width = 1, height = 1, pixels = [(0, 0, 0)]\<rparr>"
    by (simp add: edit_def)
  ultimately have "black_stage edit 5 = (Inr (RGB \<lparr>width = 1, height = 1, pixels = [(0, 0, 0)]\<rparr>), 3)"
    by simp
  then show ?thesis unfolding edit_def .
qed

text \<open>
  C6. The loop of the source keeps the variable \<open>img_on_black\<close> across attempts, but a
  kept image has already failed the predicate, so it never decides a later attempt: the
  stage computes exactly what the loop without any carried image computes, in which each
  attempt is judged on its own response.
\<close>

theorem C6_retries_independent:
  "black_stage edit max_black_attempts = independent_loop edit (nat max_black_attempts) 0
   \<and> main_black_stage edit = independent_loop edit 5 0"
  using black_stage_independent [of edit max_black_attempts] black_stage_independent [of edit 5]
  by (simp add: main_black_stage_def)

section \<open>Claims about the matting function\<close>

text \<open>
  C7. With the same image as white-background and black-background input, the result
  has alpha 255 at every pixel and the RGB values of the RGB-coerced input.
\<close>

theorem C7_identical_inputs:
  assumes "wf_image img"
  shows "extract_alpha_difference_matting img img =
    Inr \<lparr>width = width (convert_RGB img), height = height (convert_RGB img),
         pixels = map (\<lambda>p. case p of (r, g, b) \<Rightarrow> (r, g, b, 255)) (pixels (convert_RGB img))\<rparr>"
proof -
  have "map (\<lambda>pq. the (matte_pixel (fst pq) (snd pq)))
            (zip (pixels (convert_RGB img)) (pixels (convert_RGB img)))
      = map (\<lambda>p. case p of (r, g, b) \<Rightarrow> (r, g, b, 255)) (pixels (convert_RGB img))"
  proof -
    have "the (matte_pixel p p) = (case p of (r, g, b) \<Rightarrow> (r, g, b, 255))" for p :: rgb
      by (cases p) (simp add: matte_pixel_same)
    then show ?thesis by (simp add: zip_same_conv_map)
  qed
  then show ?thesis
    using extract_same_dims [OF assms assms] by simp
qed

theorem C7_identical_inputs_witness:
  "wf_image (RGBA \<lparr>width = 2, height = 1, pixels = [(10, 20, 30, 40), (255, 0, 7, 0)]\<rparr>)
   \<and> extract_alpha_difference_matting
        (RGBA \<lparr>width = 2, height = 1, pixels = [(10, 20, 30, 40), (255, 0, 7, 0)]\<rparr>)
        (RGBA \<lparr>width = 2, height = 1, pixels = [(10, 20, 30, 40), (255, 0, 7, 0)]\<rparr>)
     = Inr \<lparr>width = 2, height = 1, pixels = [(10, 20, 30, 255), (255, 0, 7, 255)]\<rparr>"
  using C7_identical_inputs [of "RGBA \<lparr>width = 2, height = 1, pixels = [(10, 20, 30, 40), (255, 0, 7, 0)]\<rparr>"]
  by (simp add: wf_raster_def drop_alpha_def)

text \<open>
  C8. The end-to-end scenario: a 2 by 2 white canvas and a 2 by 2 black canvas that
  agree on one pixel of colour (200, 50, 50). That pixel comes out opaque with its
  colour, the other three with alpha 0. The subject pixel is taken first, then last.
\<close>

theorem C8_scenario:
  "extract_alpha_difference_matting
     (RGB \<lparr>width = 2, height = 2,
           pixels = [(200, 50, 50), (255, 255, 255), (255, 255, 255), (255, 255, 255)]\<rparr>)
     (RGB \<lparr>width = 2, height = 2, pixels = [(200, 50, 50), (0, 0, 0), (0, 0, 0), (0, 0, 0)]\<rparr>)
   = Inr \<lparr>width = 2, height = 2,
          pixels = [(200, 50, 50, 255), (0, 0, 0, 0), (0, 0, 0, 0), (0, 0, 0, 0)]\<rparr>
   \<and> extract_alpha_difference_matting
     (RGB \<lparr>width = 2, height = 2,
           pixels = [(255, 255, 255), (255, 255, 255), (255, 255, 255), (200, 50, 50)]\<rparr>)
     (RGB \<lparr>width = 2, height = 2, pixels = [(0, 0, 0), (0, 0, 0), (0, 0, 0), (200, 50, 50)]\<rparr>)
   = Inr \<lparr>width = 2, height = 2,
          pixels = [(0, 0, 0, 0), (0, 0, 0, 0), (0, 0, 0, 0), (200, 50, 50, 255)]\<rparr>"
  by (simp add: extract_same_dims wf_raster_def matte_pixel_same matte_pixel_white_black)

text \<open>
  C10. For inputs of the same width and height the result is an RGBA raster of that
  width and height, with one pixel of four 8-bit channels for every position.
\<close>

theorem C10_output_shape:
  assumes "wf_image iw" and "wf_image ib"
    and "width (convert_RGB iw) = width (convert_RGB ib)"
    and "height (convert_RGB iw) = height (convert_RGB ib)"
  shows "\<exists>out. extract_alpha_difference_matting iw ib = Inr out
    \<and> width out = width (convert_RGB iw) \<and> height out = height (convert_RGB iw)
    \<and> wf_raster out
    \<and> (\<forall>px \<in> set (pixels out). case px of (r, g, b, a) \<Rightarrow>
          unat r \<le> 255 \<and> unat g \<le> 255 \<and> unat b \<le> 255 \<and> unat a \<le> 255)"
proof -
  have len: "length (pixels (convert_RGB iw)) = width (convert_RGB iw) * height (convert_RGB iw)"
    "length (pixels (convert_RGB ib)) = width (convert_RGB iw) * height (convert_RGB iw)"
    using wf_convert_RGB [OF assms(1)] wf_convert_RGB [OF assms(2)] assms(3,4)
    by (simp_all add: wf_raster_def)
  have byte: "unat (c::byte) \<le> 255" for c
    using unsigned_less [of c, where 'a = nat] by simp
  show ?thesis
    unfolding extract_same_dims [OF assms]
    by (simp add: wf_raster_def len split_def byte)
qed

theorem C10_output_shape_witness:
  "wf_image (RGB \<lparr>width = 1, height = 2, pixels = [(255, 255, 255), (9, 9, 9)]\<rparr>)
   \<and> wf_image (RGBA \<lparr>width = 1, height = 2, pixels = [(0, 0, 0, 255), (9, 9, 9, 255)]\<rparr>)
   \<and> (\<exists>out. extract_alpha_difference_matting
          (RGB \<lparr>width = 1, height = 2, pixels = [(255, 255, 255), (9, 9, 9)]\<rparr>)
          (RGBA \<lparr>width = 1, height = 2, pixels = [(0, 0, 0, 255), (9, 9, 9, 255)]\<rparr>) = Inr out
        \<and> width out = 1 \<and> height out = 2 \<and> wf_raster out)"
  using C10_output_shape [of "RGB \<lparr>width = 1, height = 2, pixels = [(255, 255, 255), (9, 9, 9)]\<rparr>"
      "RGBA \<lparr>width = 1, height = 2, pixels = [(0, 0, 0, 255), (9, 9, 9, 255)]\<rparr>"]
  by (auto simp: wf_raster_def)

text \<open>
  C9. At a pixel whose alpha estimate is at most 0.01 the RGB of the result is the
  black-background colour, unchanged.
\<close>

theorem C9_low_alpha_keeps_black_colour:
  assumes "wf_image iw" and "wf_image ib"
    and "width (convert_RGB iw) = width (convert_RGB ib)"
    and "height (convert_RGB iw) = height (convert_RGB ib)"
    and "y < height (convert_RGB iw)" and "x < width (convert_RGB iw)"
    and "pixel_alpha (pixel_at (convert_RGB iw) y x) (pixel_at (convert_RGB ib) y x) = Some a"
    and "a \<le> 1 / 100"
    and "extract_alpha_difference_matting iw ib = Inr out"
  shows "drop_alpha (pixel_at out y x) = pixel_at (convert_RGB ib) y x"
proof -
  define W where "W = convert_RGB iw"
  define B where "B = convert_RGB ib"
  define i where "i = y * width W + x"
  have i: "i < height W * width W"
    unfolding i_def using assms(5,6) by (intro pixel_index_less) (simp_all add: W_def)
  have lw: "length (pixels W) = height W * width W"
    using wf_convert_RGB [OF assms(1)] by (simp add: wf_raster_def W_def mult.commute)
  have lb: "length (pixels B) = height W * width W"
    using wf_convert_RGB [OF assms(2)] assms(3,4)
    by (simp add: wf_raster_def W_def B_def mult.commute)
  obtain br bg bb where b: "pixels B ! i = (br, bg, bb)" by (cases "pixels B ! i")
  have out: "out = \<lparr>width = width W, height = height W,
      pixels = map (\<lambda>pq. the (matte_pixel (fst pq) (snd pq))) (zip (pixels W) (pixels B))\<rparr>"
    using assms(9) extract_same_dims [OF assms(1-4)] by (simp add: W_def B_def)
  have "pixel_at out y x = the (matte_pixel (pixels W ! i) (pixels B ! i))"
    using i by (simp add: out pixel_at_def i_def lw lb)
  moreover have "a = alpha_rounded (euclid (pixels W ! i) (br, bg, bb))"
    using assms(7) assms(3) unfolding pixel_alpha_value
    by (simp add: pixel_at_def W_def B_def i_def b [symmetric])
  then have "alpha_rounded (euclid (pixels W ! i) (br, bg, bb)) \<le> 1 / 100"
    using assms(8) by simp
  then have "matte_pixel (pixels W ! i) (br, bg, bb) =
    Some (br, bg, bb, astype_uint8 (r32 (alpha_rounded (euclid (pixels W ! i) (br, bg, bb)) * 255)))"
    by (rule matte_pixel_low_alpha)
  ultimately have "drop_alpha (pixel_at out y x) = (br, bg, bb)"
    by (simp add: b drop_alpha_def)
  then show ?thesis
    using assms(3) by (simp add: pixel_at_def B_def W_def i_def b [symmetric])
qed

text \<open>
  A white pixel over the nearly black pixel (1, 0, 0): the alpha estimate is below
  0.01 and the colour (1, 0, 0) is kept.
\<close>

theorem C9_low_alpha_keeps_black_colour_witness:
  "wf_image (RGB \<lparr>width = 1, height = 1, pixels = [(255, 255, 255)]\<rparr>)
   \<and> wf_image (RGB \<lparr>width = 1, height = 1, pixels = [(1, 0, 0)]\<rparr>)
   \<and> (\<exists>a. pixel_alpha (255, 255, 255) (1, 0, 0) = Some a \<and> a \<le> 1 / 100)
   \<and> (\<exists>out. extract_alpha_difference_matting
          (RGB \<lparr>width = 1, height = 1, pixels = [(255, 255, 255)]\<rparr>)
          (RGB \<lparr>width = 1, height = 1, pixels = [(1, 0, 0)]\<rparr>) = Inr out
        \<and> drop_alpha (pixel_at out 0 0) = (1, 0, 0))"
proof -
  define iw where "iw = RGB \<lparr>width = 1, height = 1, pixels = [(255, 255, 255)]\<rparr>"
  define ib where "ib = RGB \<lparr>width = 1, height = 1, pixels = [(1, 0, 0)]\<rparr>"
  define a where "a = alpha_rounded (sqrt 194566)"
  have wf: "wf_image iw" "wf_image ib" by (simp_all add: iw_def ib_def wf_raster_def)
  have pa: "pixel_alpha (255, 255, 255) (1, 0, 0) = Some a"
    by (simp only: pixel_alpha_value euclid_white_near_black a_def)
  have le: "a \<le> 1 / 100" using alpha_rounded_near_black by (simp add: a_def)
  obtain out where out: "extract_alpha_difference_matting iw ib = Inr out"
    using extract_same_dims [OF wf] by (simp add: iw_def ib_def)
  have "drop_alpha (pixel_at out 0 0) = pixel_at (convert_RGB ib) 0 0"
    by (rule C9_low_alpha_keeps_black_colour [OF wf _ _ _ _ _ le out])
      (simp_all add: iw_def ib_def pixel_at_def pa)
  then have "drop_alpha (pixel_at out 0 0) = (1, 0, 0)" by (simp add: ib_def pixel_at_def)
  then show ?thesis using wf pa le out unfolding iw_def ib_def by blast
qed

text \<open>
  C4. At a pixel whose alpha estimate is at most 0.01 the divisor of the colour
  recovery is 1.0, every division by it is a finite number between 0 and 255 (the
  channel itself), and the pixel of the result is computed without leaving the finite
  numbers.
\<close>

theorem C4_low_alpha_divisor:
  assumes "pixel_alpha w b = Some a" and "a \<le> 1 / 100"
  shows "alpha_safe a = Some 1
    \<and> (\<forall>c. f32_div (chan c) 1 = Some (chan c) \<and> 0 \<le> chan c \<and> chan c \<le> 255
           \<and> recover c 1 = Some c)
    \<and> (\<exists>px. matte_pixel w b = Some px)"
proof -
  have a: "a = alpha_rounded (euclid w b)" using assms(1) by (simp add: pixel_alpha_value)
  have "\<not> a > 10737418 / 2 ^ 30" unfolding a by (rule low_alpha_not_above) (use assms(2) a in simp)
  then have safe: "alpha_safe a = Some 1" by (simp add: alpha_safe_value)
  have dv: "f32_div (chan c) 1 = Some (chan c)" for c
  proof -
    have "\<bar>chan c\<bar> \<le> 2 powi 8" using chan_nonneg [of c] chan_le [of c] by simp
    then have "f32 (chan c) = Some (r32 (chan c))" by (rule f32_finite) simp_all
    then show ?thesis by (simp add: f32_div_def r32_chan)
  qed
  have rc: "recover c 1 = Some c" for c
    unfolding recover_def by (simp only: dv bind.bind_lunit clip_chan astype_chan)
  show ?thesis using safe dv rc chan_nonneg chan_le matte_pixel_finite [of w b] by blast
qed

theorem C4_low_alpha_divisor_witness:
  "pixel_alpha (255, 255, 255) (0, 0, 0) = Some 0 \<and> (0::real) \<le> 1 / 100
   \<and> alpha_safe 0 = Some 1 \<and> recover 0 1 = Some 0
   \<and> (\<exists>px. matte_pixel (255, 255, 255) (0, 0, 0) = Some px)"
proof -
  have pa: "pixel_alpha (255, 255, 255) (0, 0, 0) = Some 0"
    by (simp only: pixel_alpha_value euclid_white_black alpha_rounded_max)
  have le: "(0::real) \<le> 1 / 100" by simp
  from C4_low_alpha_divisor [OF pa le] show ?thesis using pa by simp
qed

text \<open>
  C5, as the code has it. The only failure is the \<^verbatim>\<open>ValueError\<close> of numpy
  broadcasting in \<^verbatim>\<open>white_arr - black_arr\<close>: it is raised exactly when the heights
  or the widths differ and neither of the two differing lengths is 1. In every other
  case a well-formed RGBA raster is returned, and along each axis its length is that of
  the white image, or that of the black image where the white image has length 1.
\<close>

theorem C5_shape_error_iff_not_broadcastable:
  "(extract_alpha_difference_matting iw ib = Inl ValueError) =
     (height (convert_RGB iw) \<noteq> height (convert_RGB ib)
        \<and> height (convert_RGB iw) \<noteq> 1 \<and> height (convert_RGB ib) \<noteq> 1
      \<or> width (convert_RGB iw) \<noteq> width (convert_RGB ib)
        \<and> width (convert_RGB iw) \<noteq> 1 \<and> width (convert_RGB ib) \<noteq> 1)
   \<and> (isl (extract_alpha_difference_matting iw ib)
        \<longrightarrow> extract_alpha_difference_matting iw ib = Inl ValueError)
   \<and> (extract_alpha_difference_matting iw ib \<noteq> Inl ValueError
        \<longrightarrow> (\<exists>out. extract_alpha_difference_matting iw ib = Inr out
              \<and> height out = (if height (convert_RGB iw) = 1 then height (convert_RGB ib)
                                else height (convert_RGB iw))
              \<and> width out = (if width (convert_RGB iw) = 1 then width (convert_RGB ib)
                               else width (convert_RGB iw))
              \<and> wf_raster out))"
proof (cases "broadcast_dim (height (convert_RGB iw)) (height (convert_RGB ib)) = None
         \<or> broadcast_dim (width (convert_RGB iw)) (width (convert_RGB ib)) = None")
  case True
  have "extract_alpha_difference_matting iw ib = Inl ValueError"
    using True by (rule extract_mismatch)
  moreover have "height (convert_RGB iw) \<noteq> height (convert_RGB ib)
        \<and> height (convert_RGB iw) \<noteq> 1 \<and> height (convert_RGB ib) \<noteq> 1
      \<or> width (convert_RGB iw) \<noteq> width (convert_RGB ib)
        \<and> width (convert_RGB iw) \<noteq> 1 \<and> width (convert_RGB ib) \<noteq> 1"
    using True by (simp only: broadcast_dim_None_iff)
  ultimately show ?thesis by simp
next
  case False
  then obtain h w where hw:
    "broadcast_dim (height (convert_RGB iw)) (height (convert_RGB ib)) = Some h"
    "broadcast_dim (width (convert_RGB iw)) (width (convert_RGB ib)) = Some w"
    by auto
  have h: "h = (if height (convert_RGB iw) = 1 then height (convert_RGB ib)
                else height (convert_RGB iw))"
    using hw(1) by (simp add: broadcast_dim_def split: if_splits)
  have w: "w = (if width (convert_RGB iw) = 1 then width (convert_RGB ib)
                else width (convert_RGB iw))"
    using hw(2) by (simp add: broadcast_dim_def split: if_splits)
  define out where "out = \<lparr>width = w, height = h,
         pixels = map (\<lambda>i. the (matte_pixel (bpixel (convert_RGB iw) (i div w) (i mod w))
                                              (bpixel (convert_RGB ib) (i div w) (i mod w))))
                      [0..<h * w]\<rparr>"
  have ex: "extract_alpha_difference_matting iw ib = Inr out"
    unfolding out_def by (rule extract_broadcast [OF hw])
  have shape: "height out = h" "width out = w" "wf_raster out"
    by (simp_all add: out_def wf_raster_def mult.commute)
  have good: "\<exists>out. extract_alpha_difference_matting iw ib = Inr out
              \<and> height out = (if height (convert_RGB iw) = 1 then height (convert_RGB ib)
                                else height (convert_RGB iw))
              \<and> width out = (if width (convert_RGB iw) = 1 then width (convert_RGB ib)
                               else width (convert_RGB iw))
              \<and> wf_raster out"
    using ex shape h w by blast
  have "\<not> isl (extract_alpha_difference_matting iw ib)" unfolding ex by simp
  moreover have "extract_alpha_difference_matting iw ib \<noteq> Inl ValueError" unfolding ex by simp
  moreover have "\<not> (height (convert_RGB iw) \<noteq> height (convert_RGB ib)
        \<and> height (convert_RGB iw) \<noteq> 1 \<and> height (convert_RGB ib) \<noteq> 1
      \<or> width (convert_RGB iw) \<noteq> width (convert_RGB ib)
        \<and> width (convert_RGB iw) \<noteq> 1 \<and> width (convert_RGB ib) \<noteq> 1)"
    using False by (simp add: broadcast_dim_None_iff)
  ultimately show ?thesis using good by blast
qed

text \<open>
  The scenario of the specification, 2 by 2 against 3 by 3, fails; a 1 by 1 image
  against an image of width 0 and height 1 gives a result of width 0 and height 1.
\<close>

theorem C5_shape_error_iff_not_broadcastable_witness:
  "extract_alpha_difference_matting
     (RGB \<lparr>width = 2, height = 2, pixels = [(0, 0, 0), (0, 0, 0), (0, 0, 0), (0, 0, 0)]\<rparr>)
     (RGB \<lparr>width = 3, height = 3, pixels = [(0, 0, 0), (0, 0, 0), (0, 0, 0), (0, 0, 0),
        (0, 0, 0), (0, 0, 0), (0, 0, 0), (0, 0, 0), (0, 0, 0)]\<rparr>)
   = Inl ValueError
   \<and> (\<exists>out. extract_alpha_difference_matting
          (RGB \<lparr>width = 1, height = 1, pixels = [(7, 7, 7)]\<rparr>)
          (RGB \<lparr>width = 0, height = 1, pixels = []\<rparr>) = Inr out
        \<and> height out = 1 \<and> width out = 0 \<and> wf_raster out)"
proof -
  have a: "extract_alpha_difference_matting
     (RGB \<lparr>width = 2, height = 2, pixels = [(0, 0, 0), (0, 0, 0), (0, 0, 0), (0, 0, 0)]\<rparr>)
     (RGB \<lparr>width = 3, height = 3, pixels = [(0, 0, 0), (0, 0, 0), (0, 0, 0), (0, 0, 0),
        (0, 0, 0), (0, 0, 0), (0, 0, 0), (0, 0, 0), (0, 0, 0)]\<rparr>)
   = Inl ValueError"
    by (rule iffD2 [OF C5_shape_error_iff_not_broadcastable [THEN conjunct1]]) simp
  define iw where "iw = RGB \<lparr>width = 1, height = 1, pixels = [(7, 7, 7)]\<rparr>"
  define ib where "ib = RGB \<lparr>width = 0, height = 1, pixels = []\<rparr>"
  have dims: "height (convert_RGB iw) = 1" "width (convert_RGB iw) = 1"
    "height (convert_RGB ib) = 1" "width (convert_RGB ib) = 0"
    by (simp_all add: iw_def ib_def)
  have "(extract_alpha_difference_matting iw ib = Inl ValueError) = False"
    unfolding C5_shape_error_iff_not_broadcastable [of iw ib, THEN conjunct1] dims by simp
  then have ne: "extract_alpha_difference_matting iw ib \<noteq> Inl ValueError" by simp
  have "\<exists>out. extract_alpha_difference_matting iw ib = Inr out
      \<and> height out = (if height (convert_RGB iw) = 1 then height (convert_RGB ib)
                        else height (convert_RGB iw))
      \<and> width out = (if width (convert_RGB iw) = 1 then width (convert_RGB ib)
                       else width (convert_RGB iw))
      \<and> wf_raster out"
    using C5_shape_error_iff_not_broadcastable [of iw ib, THEN conjunct2, THEN conjunct2] ne
    by (rule mp)
  then have "\<exists>out. extract_alpha_difference_matting iw ib = Inr out
      \<and> height out = 1 \<and> width out = 0 \<and> wf_raster out"
    unfolding dims by simp
  then show ?thesis using a unfolding iw_def ib_def by (rule conjI [rotated])
qed

text \<open>
  C5 as stated fails: a 1 by 1 image against a 2 by 2 image has mismatched dimensions,
  and the function returns a 2 by 2 result.
\<close>

theorem C5_mismatch_counterexample:
  "width (convert_RGB (RGB \<lparr>width = 1, height = 1, pixels = [(7, 7, 7)]\<rparr>))
     \<noteq> width (convert_RGB (RGB \<lparr>width = 2, height = 2,
           pixels = [(7, 7, 7), (7, 7, 7), (7, 7, 7), (7, 7, 7)]\<rparr>))
   \<and> extract_alpha_difference_matting
       (RGB \<lparr>width = 1, height = 1, pixels = [(7, 7, 7)]\<rparr>)
       (RGB \<lparr>width = 2, height = 2, pixels = [(7, 7, 7), (7, 7, 7), (7, 7, 7), (7, 7, 7)]\<rparr>)
     = Inr \<lparr>width = 2, height = 2,
            pixels = [(7, 7, 7, 255), (7, 7, 7, 255), (7, 7, 7, 255), (7, 7, 7, 255)]\<rparr>"
proof -
  have "map (\<lambda>i. the (matte_pixel
            (bpixel (convert_RGB (RGB \<lparr>width = 1, height = 1, pixels = [(7, 7, 7)]\<rparr>))
               (i div 2) (i mod 2))
            (bpixel (convert_RGB (RGB \<lparr>width = 2, height = 2,
                pixels = [(7, 7, 7), (7, 7, 7), (7, 7, 7), (7, 7, 7)]\<rparr>))
               (i div 2) (i mod 2)))) [0..<2 * 2]
      = map (\<lambda>i. (7, 7, 7, 255)) [0..<4]"
    by (rule map_cong) (simp_all add: broadcast_single_pixel broadcast_square matte_pixel_same)
  then show ?thesis
    unfolding broadcast_example by (simp add: upt_0_4)
qed

section \<open>The claim about the alpha estimate\<close>

text \<open>
  C1, as the code has it. The alpha of a pixel is computed in binary32 arithmetic. It
  lies within \<open>1 / 2 ^ 22\<close> of \<open>clamp(1 - d/D, 0, 1)\<close>, where \<open>d\<close> is the Euclidean distance
  of the two observed colours and \<open>D = sqrt (3 * 255 ^ 2)\<close>; it is exactly 1 at \<open>d = 0\<close>
  and exactly 0 at \<open>d = D\<close>, and a pixel at a larger distance gets a strictly smaller
  alpha.
\<close>

theorem C1_alpha_estimate:
  "\<exists>a. pixel_alpha w b = Some a
     \<and> \<bar>a - alpha_spec w b\<bar> \<le> 1 / 2 ^ 22
     \<and> (euclid w b = 0 \<longrightarrow> a = 1)
     \<and> (euclid w b = reference_distance \<longrightarrow> a = 0)
     \<and> (\<forall>w' b' a'. pixel_alpha w' b' = Some a' \<and> euclid w b < euclid w' b' \<longrightarrow> a' < a)"
proof -
  define a where "a = alpha_rounded (euclid w b)"
  have pa: "pixel_alpha w b = Some a" unfolding a_def by (rule pixel_alpha_value)
  have "\<bar>alpha_rounded (euclid w b) - (1 - euclid w b / sqrt 195075)\<bar> \<le> 1 / 2 ^ 22"
    by (rule alpha_rounded_error) (rule euclid_nonneg, rule euclid_le)
  then have err: "\<bar>a - alpha_spec w b\<bar> \<le> 1 / 2 ^ 22" by (simp only: a_def alpha_spec_value)
  have zero: "euclid w b = 0 \<longrightarrow> a = 1" by (simp add: a_def alpha_rounded_zero)
  have full: "euclid w b = reference_distance \<longrightarrow> a = 0"
    by (simp add: a_def reference_distance_value alpha_rounded_max)
  have mono: "\<forall>w' b' a'. pixel_alpha w' b' = Some a' \<and> euclid w b < euclid w' b' \<longrightarrow> a' < a"
  proof (intro allI impI)
    fix w' b' a'
    assume h: "pixel_alpha w' b' = Some a' \<and> euclid w b < euclid w' b'"
    then have "a' = alpha_rounded (euclid w' b')" by (simp add: pixel_alpha_value)
    then show "a' < a" unfolding a_def using alpha_rounded_strict [of w b w' b'] h by simp
  qed
  show ?thesis using pa err zero full mono by blast
qed

text \<open>
  Two identical black observations and a white observation over a black one: distance 0
  with alpha 1, distance \<open>D\<close> with alpha 0.
\<close>

theorem C1_alpha_estimate_witness:
  "euclid (0, 0, 0) (0, 0, 0) = 0
   \<and> euclid (255, 255, 255) (0, 0, 0) = reference_distance
   \<and> euclid (0, 0, 0) (0, 0, 0) < euclid (255, 255, 255) (0, 0, 0)
   \<and> pixel_alpha (0, 0, 0) (0, 0, 0) = Some 1
   \<and> pixel_alpha (255, 255, 255) (0, 0, 0) = Some 0"
proof -
  have e0: "euclid (0, 0, 0) (0, 0, 0) = 0" by (rule euclid_same)
  have e1: "euclid (255, 255, 255) (0, 0, 0) = reference_distance"
    by (simp only: euclid_white_black reference_distance_value)
  have lt: "euclid (0, 0, 0) (0, 0, 0) < euclid (255, 255, 255) (0, 0, 0)"
    by (simp only: e0 euclid_white_black) simp
  obtain a where a: "pixel_alpha (0, 0, 0) (0, 0, 0) = Some a"
    "euclid (0, 0, 0) (0, 0, 0) = 0 \<longrightarrow> a = 1"
    using C1_alpha_estimate [of "(0, 0, 0)" "(0, 0, 0)"] by blast
  obtain a' where a': "pixel_alpha (255, 255, 255) (0, 0, 0) = Some a'"
    "euclid (255, 255, 255) (0, 0, 0) = reference_distance \<longrightarrow> a' = 0"
    using C1_alpha_estimate [of "(255, 255, 255)" "(0, 0, 0)"] by blast
  have "a = 1" using a(2) e0 by (rule mp)
  moreover have "a' = 0" using a'(2) e1 by (rule mp)
  ultimately show ?thesis using e0 e1 lt a(1) a'(1) by simp
qed

text \<open>
  C1 as stated fails: for the white observation (1, 1, 1) over the black observation
  (0, 0, 0) the exact formula gives 254/255, and the code computes the binary32 number
  \<open>16711423 / 2 ^ 24\<close>.
\<close>

theorem C1_exact_equality_counterexample:
  "pixel_alpha (1, 1, 1) (0, 0, 0) = Some (16711423 / 2 ^ 24)
   \<and> alpha_spec (1, 1, 1) (0, 0, 0) = 254 / 255
   \<and> pixel_alpha (1, 1, 1) (0, 0, 0) \<noteq> Some (alpha_spec (1, 1, 1) (0, 0, 0))"
proof -
  have pa: "pixel_alpha (1, 1, 1) (0, 0, 0) = Some (16711423 / 2 ^ 24)"
    by (simp only: pixel_alpha_value euclid_gray_1 alpha_rounded_sqrt_3)
  have sp: "alpha_spec (1, 1, 1) (0, 0, 0) = 254 / 255" by (rule alpha_spec_gray_1)
  have "(16711423 / 2 ^ 24 :: real) \<noteq> 254 / 255" by simp
  then show ?thesis using pa sp by simp
qed


end
